theory Spec2Isabelle
  imports Complex_Main "HOL-Library.Word" "HOL-Library.Signed_Division" "HOL-Library.Multiset"
begin

section \<open>Conventions of the embedding\<close>

text \<open>
  The library works on C++ arrays of \<^verbatim>\<open>VElem_t = double\<close>, \<^verbatim>\<open>CElem_t = int32_t\<close>,
  \<^verbatim>\<open>K_t = int32_t\<close>, \<^verbatim>\<open>Order_t = uint16_t\<close> and \<^verbatim>\<open>Hash_t = uint64_t\<close> (common.h).
  Arrays are lists. \<^verbatim>\<open>Hash_t\<close> arithmetic is relied on to wrap and is a \<open>64 word\<close>.
  A \<^verbatim>\<open>CElem_t\<close> or \<^verbatim>\<open>K_t\<close> value is the \<open>int\<close> it denotes, and \<open>is_int32\<close> says that
  an \<open>int\<close> is such a value. Where the source computes with these values, the result of
  each operation is reduced to 32 bits by \<open>int32\<close>, the two's complement wrap-around of
  the compiled code (C++ itself leaves signed overflow undefined); \<open>as_int32\<close> is the
  conversion of an unsigned 32-bit value to \<^verbatim>\<open>int32_t\<close>.
  \<^verbatim>\<open>double\<close> arithmetic is modelled by exact arithmetic on \<open>real\<close>, without rounding,
  infinities or NaN, except in the last sections, where the range of a \<^verbatim>\<open>double\<close> and NaN
  are what a claim turns on. Dimension indices are \<open>nat\<close>; common.h requires that
  \<^verbatim>\<open>Order_t\<close> can hold every index up to \<open>dim + 1\<close>.
\<close>

type_synonym Dim_t = nat
type_synonym VElem_t = real
type_synonym CElem_t = int
type_synonym K_t = int
type_synonym Hash_t = "64 word"

datatype Error =
    Error_ok
  | Error_mem_fail
  | Error_invalid_dim
  | Error_invalid_num_shells
  | Error_invalid_packing_radius
  | Error_in_callback
  | Error_insufficient_buffers
  | Error_unknown

definition is_int32 :: "int \<Rightarrow> bool" where
  "is_int32 x \<longleftrightarrow> - (2 ^ 31) \<le> x \<and> x < 2 ^ 31"

definition int32 :: "int \<Rightarrow> int" where
  "int32 x = (x + 2 ^ 31) mod 2 ^ 32 - 2 ^ 31"

definition as_int32 :: "nat \<Rightarrow> int" where
  "as_int32 x = (if x mod 2 ^ 32 < 2 ^ 31 then int (x mod 2 ^ 32) else int (x mod 2 ^ 32) - 2 ^ 32)"

section \<open>AStarLattice: c-vectors to lattice points\<close>

text \<open>
  \<^verbatim>\<open>cvector_k_to_lattice_point_in_lattice_space\<close>: \<open>dimp = dim + 1\<close> is a \<^verbatim>\<open>CElem_t\<close>;
  a do-while loop over the entries of \<open>c\<close> up to \<open>c + dimp\<close> writes
  \<open>- (c[i] * dimp + k)\<close>, evaluated in \<^verbatim>\<open>int32_t\<close> and then converted to \<^verbatim>\<open>double\<close>,
  through the advancing pointer \<open>v_out\<close>. The loop function takes the index of the entry
  \<open>pc\<close> points at and the output written so far; the body runs before the test, as in
  the source. \<^verbatim>\<open>cvector_to_lattice_point_in_lattice_space\<close> first runs \<open>k -= *pc++\<close>
  over the same entries (again a do-while loop), then the same output loop.
\<close>

function cvector_out_loop :: "int \<Rightarrow> CElem_t list \<Rightarrow> K_t \<Rightarrow> nat \<Rightarrow> VElem_t list \<Rightarrow> VElem_t list" where
  "cvector_out_loop dimp c k i v_out =
     (let v_out' = v_out @ [real_of_int (int32 (- int32 (int32 (c ! i * dimp) + k)))]
      in if int (i + 1) < dimp then cvector_out_loop dimp c k (i + 1) v_out' else v_out')"
  by pat_completeness auto
termination
  by (relation "measure (\<lambda>(dimp, c, k, i, v_out). nat dimp - i)") auto

declare cvector_out_loop.simps [simp del]

definition cvector_k_to_lattice_point_in_lattice_space ::
  "Dim_t \<Rightarrow> CElem_t list \<Rightarrow> K_t \<Rightarrow> VElem_t list" where
  "cvector_k_to_lattice_point_in_lattice_space dm c k = cvector_out_loop (as_int32 (dm + 1)) c k 0 []"

function cvector_k_loop :: "int \<Rightarrow> CElem_t list \<Rightarrow> nat \<Rightarrow> K_t \<Rightarrow> K_t" where
  "cvector_k_loop dimp c i k =
     (let k' = int32 (k - c ! i)
      in if int (i + 1) < dimp then cvector_k_loop dimp c (i + 1) k' else k')"
  by pat_completeness auto
termination
  by (relation "measure (\<lambda>(dimp, c, i, k). nat dimp - i)") auto

declare cvector_k_loop.simps [simp del]

definition cvector_to_k :: "Dim_t \<Rightarrow> CElem_t list \<Rightarrow> K_t" where
  "cvector_to_k dm c = cvector_k_loop (as_int32 (dm + 1)) c 0 0"

definition cvector_to_lattice_point_in_lattice_space :: "Dim_t \<Rightarrow> CElem_t list \<Rightarrow> VElem_t list" where
  "cvector_to_lattice_point_in_lattice_space dm c =
     cvector_out_loop (as_int32 (dm + 1)) c (cvector_to_k dm c) 0 []"

section \<open>AStarLattice: mapping to and from the lattice representation space\<close>

text \<open>
  \<^verbatim>\<open>to_lattice_space\<close>: a do-while loop sums the \<open>dim\<close> input coordinates (the local \<open>sum\<close>, here \<open>sm\<close>); then
  \<open>norm = sqrt(dim + 1.0)\<close>, \<open>v_n = -sum / norm\<close>, \<open>t = (v_n + sum) / dim\<close>; a second
  do-while loop writes \<open>scale * (v_in[i] - t)\<close>, and the last store writes \<open>scale * v_n\<close>.
\<close>

function to_lattice_sum_loop :: "nat \<Rightarrow> VElem_t list \<Rightarrow> nat \<Rightarrow> real \<Rightarrow> real" where
  "to_lattice_sum_loop dm v_in i sm =
     (let sm' = sm + v_in ! i
      in if i + 1 < dm then to_lattice_sum_loop dm v_in (i + 1) sm' else sm')"
  by pat_completeness auto
termination
  by (relation "measure (\<lambda>(dm, v_in, i, sm). dm - i)") auto

declare to_lattice_sum_loop.simps [simp del]

function to_lattice_out_loop ::
  "nat \<Rightarrow> real \<Rightarrow> real \<Rightarrow> VElem_t list \<Rightarrow> nat \<Rightarrow> VElem_t list \<Rightarrow> VElem_t list" where
  "to_lattice_out_loop dm scale t v_in i v_out =
     (let v_out' = v_out @ [scale * (v_in ! i - t)]
      in if i + 1 < dm then to_lattice_out_loop dm scale t v_in (i + 1) v_out' else v_out')"
  by pat_completeness auto
termination
  by (relation "measure (\<lambda>(dm, scale, t, v_in, i, v_out). dm - i)") auto

declare to_lattice_out_loop.simps [simp del]

definition to_lattice_space :: "Dim_t \<Rightarrow> real \<Rightarrow> VElem_t list \<Rightarrow> VElem_t list" where
  "to_lattice_space dm scale v_in =
     (let sm = to_lattice_sum_loop dm v_in 0 0;
          norm = sqrt (real dm + 1);
          v_n = - sm / norm;
          t = (v_n + sm) / real dm
      in to_lattice_out_loop dm scale t v_in 0 [] @ [scale * v_n])"





section \<open>Hash: the polynomial hash of a c-vector\<close>

definition RADIX :: Hash_t where
  "RADIX = 31"

text \<open>
  \<^verbatim>\<open>Hash::hash\<close>: \<open>hash_code += (Hash_t)(*to_hash) * mul; mul *= RADIX\<close> in a do-while
  loop that runs while the advanced pointer is \<open>\<le> to_hash + dim\<close>. The conversion of an
  \<^verbatim>\<open>int32_t\<close> to \<^verbatim>\<open>uint64_t\<close> is the value modulo \<open>2^64\<close>, which is \<open>word_of_int\<close>.
\<close>

function hash_loop :: "nat \<Rightarrow> CElem_t list \<Rightarrow> nat \<Rightarrow> Hash_t \<Rightarrow> Hash_t \<Rightarrow> Hash_t" where
  "hash_loop dm to_hash i hash_code mul =
     (let hash_code' = hash_code + word_of_int (to_hash ! i) * mul;
          mul' = mul * RADIX
      in if i + 1 \<le> dm then hash_loop dm to_hash (i + 1) hash_code' mul' else hash_code')"
  by pat_completeness auto
termination
  by (relation "measure (\<lambda>(dm, to_hash, i, hash_code, mul). dm + 1 - i)") auto

declare hash_loop.simps [simp del]

definition hash :: "Dim_t \<Rightarrow> CElem_t list \<Rightarrow> Hash_t" where
  "hash dm to_hash = hash_loop dm to_hash 0 0 1"

text \<open>
  The process-wide cache \<^verbatim>\<open>Hash::POW_RADIX\<close> of the powers of \<open>RADIX\<close>: the array
  \<open>m_x\<close> holds \<open>m_dim + 1\<close> entries. The constructor (with \<open>initial_dim = 16\<close>) and
  \<^verbatim>\<open>_powers\<close> fill new entries with \<open>m_x[i] = m_x[i-1] * RADIX\<close>; \<^verbatim>\<open>_powers\<close> grows the
  array when a larger dimension is asked for and never shrinks it. Allocation is taken
  to succeed.
\<close>

record Hash_cache =
  m_x :: "Hash_t list"
  m_dim :: nat

function fill_powers :: "nat \<Rightarrow> nat \<Rightarrow> Hash_t list \<Rightarrow> Hash_t list" where
  "fill_powers i dm xs =
     (if i \<le> dm then fill_powers (i + 1) dm (xs @ [xs ! (i - 1) * RADIX]) else xs)"
  by pat_completeness auto
termination
  by (relation "measure (\<lambda>(i, dm, xs). dm + 1 - i)") auto

declare fill_powers.simps [simp del]

definition Hash_init :: "nat \<Rightarrow> Hash_cache" where
  "Hash_init initial_dim = \<lparr>m_x = fill_powers 1 initial_dim [1], m_dim = initial_dim\<rparr>"

definition POW_RADIX :: Hash_cache where
  "POW_RADIX = Hash_init 16"

definition powers :: "Dim_t \<Rightarrow> Hash_cache \<Rightarrow> Hash_t list \<times> Hash_cache" where
  "powers dm st =
     (if dm \<le> m_dim st then (m_x st, st)
      else let xs = fill_powers (m_dim st + 1) dm (m_x st)
           in (xs, \<lparr>m_x = xs, m_dim = dm\<rparr>))"

text \<open>
  \<^verbatim>\<open>Hash::makeOrdered\<close>: \<open>*ordered_powers++ = *(p_powers + *order++)\<close> in a do-while
  loop over the \<open>dim + 1\<close> entries of \<open>order\<close>.
\<close>

function makeOrdered_loop :: "nat \<Rightarrow> Hash_t list \<Rightarrow> nat list \<Rightarrow> nat \<Rightarrow> Hash_t list \<Rightarrow> Hash_t list" where
  "makeOrdered_loop dm p_powers order i ordered_powers =
     (let ordered_powers' = ordered_powers @ [p_powers ! (order ! i)]
      in if i + 1 \<le> dm then makeOrdered_loop dm p_powers order (i + 1) ordered_powers'
         else ordered_powers')"
  by pat_completeness auto
termination
  by (relation "measure (\<lambda>(dm, p_powers, order, i, ordered_powers). dm + 1 - i)") auto

declare makeOrdered_loop.simps [simp del]

definition makeOrdered :: "Dim_t \<Rightarrow> nat list \<Rightarrow> Hash_cache \<Rightarrow> Hash_t list \<times> Hash_cache" where
  "makeOrdered dm order st =
     (let (p_powers, st') = powers dm st
      in (makeOrdered_loop dm p_powers order 0 [], st'))"

text \<open>The cache states that occur: \<open>m_x\<close> holds the powers \<open>RADIX^0 .. RADIX^m_dim\<close>.\<close>

definition cache_ok :: "Hash_cache \<Rightarrow> bool" where
  "cache_ok st \<longleftrightarrow> m_x st = map (\<lambda>i. RADIX ^ i) [0..<m_dim st + 1]"

section \<open>AStarProbes: probe counts\<close>

definition MAX_NUM_SHELLS :: nat where
  "MAX_NUM_SHELLS = 30"





section \<open>AStarProbes: the probe diff stream\<close>

text \<open>
  The probes are a flat array of \<open>num_probes\<close> c-vectors of \<open>dimp = dim + 1\<close> entries
  each. \<^verbatim>\<open>flipIdx\<close> reverses every second block of \<open>dimp\<close> probes; its \<^verbatim>\<open>size_t\<close>
  expression \<open>i - j - j + dimp2 + dimp - 1\<close> passes through a wrapped intermediate value,
  so it is evaluated over \<open>int\<close>.
\<close>

definition flipIdx :: "nat \<Rightarrow> nat \<Rightarrow> nat \<Rightarrow> nat" where
  "flipIdx i dimp dimp2 =
     (let j = i mod dimp2
      in if j < dimp then i else nat (int i - int j - int j + int dimp2 + int dimp - 1))"

text \<open>
  Both passes read \<open>probeC_t[d] - probeC_s[d]\<close> for the probes \<open>s\<close> and \<open>t\<close>, a
  \<^verbatim>\<open>CElem_t\<close> subtraction. A read past the end of the probe array has no result
  (\<open>None\<close>); a pointer into the array is an index, computed in \<open>nat\<close>.
\<close>

definition probe_diff :: "nat \<Rightarrow> CElem_t list \<Rightarrow> nat \<Rightarrow> nat \<Rightarrow> nat \<Rightarrow> CElem_t option" where
  "probe_diff dimp probes s t d =
     (if t * dimp + d < length probes \<and> s * dimp + d < length probes
      then Some (int32 (probes ! (t * dimp + d) - probes ! (s * dimp + d)))
      else None)"

text \<open>
  \<^verbatim>\<open>size_probe_stream\<close>: starting from \<open>3 * (num_probes - 1)\<close>, the loops over
  \<open>i = 1 ..< num_probes\<close> and \<open>d = 0 ..< dimp\<close> add \<open>abs(diff)\<close>. The count is a
  \<^verbatim>\<open>size_t\<close>: it is kept modulo \<open>2\<^sup>6\<^sup>4\<close>, \<open>num_probes - 1\<close> wraps at
  \<open>num_probes = 0\<close>, and \<open>abs\<close> is taken in \<^verbatim>\<open>int\<close> and then converted.
  \<open>dimp = dim + 1\<close> is computed in \<^verbatim>\<open>Dim_t\<close>, modulo \<open>2\<^sup>3\<^sup>2\<close>; with \<open>dimp = 0\<close> the
  remainder \<open>i % dimp2\<close> in \<^verbatim>\<open>flipIdx\<close> divides by zero and there is no result.
\<close>

definition size_step_d :: "nat \<Rightarrow> CElem_t list \<Rightarrow> nat \<Rightarrow> nat \<Rightarrow> nat option \<Rightarrow> nat \<Rightarrow> nat option" where
  "size_step_d dimp probes s t acc d =
     (case acc of
        None \<Rightarrow> None
      | Some sz \<Rightarrow>
          (case probe_diff dimp probes s t d of
             None \<Rightarrow> None
           | Some diff \<Rightarrow> Some (nat ((int sz + int32 \<bar>diff\<bar>) mod 2 ^ 64))))"

definition size_step_i :: "nat \<Rightarrow> CElem_t list \<Rightarrow> nat option \<Rightarrow> nat \<Rightarrow> nat option" where
  "size_step_i dimp probes acc i =
     (if dimp = 0 then None
      else let s = flipIdx (i - 1) dimp (dimp * 2);
               t = flipIdx i dimp (dimp * 2)
           in foldl (size_step_d dimp probes s t) acc [0..<dimp])"

definition size_probe_stream :: "Dim_t \<Rightarrow> nat \<Rightarrow> CElem_t list \<Rightarrow> nat option" where
  "size_probe_stream dm nprobes probes =
     foldl (size_step_i ((dm + 1) mod 2 ^ 32) probes)
       (Some ((3 * ((nprobes + 2 ^ 64 - 1) mod 2 ^ 64)) mod 2 ^ 64)) [1..<nprobes]"

text \<open>
  \<^verbatim>\<open>generate_probe_diffs\<close> writes \<^verbatim>\<open>Order_t\<close> values (16-bit words; \<open>STREAM_MARK\<close> is
  \<open>(Order_t)(-1)\<close>). For each \<open>i\<close> it writes the remainder \<open>k\<close>; then for each dimension
  \<open>d\<close> a negative difference puts \<open>d\<close> into the stream \<open>|diff|\<close> times (a do-while loop
  counting \<open>diff\<close> up to \<open>0\<close>) and a positive one stacks \<open>d\<close> in \<open>temp_cols\<close> \<open>diff\<close>
  times; then \<open>STREAM_MARK\<close>, the stacked columns, \<open>STREAM_MARK\<close>. The state of the
  \<open>d\<close> loop is the stream written so far and \<open>temp_cols\<close>. The source allocates
  \<open>temp_cols\<close> with \<open>dimp + MAX_NUM_SHELLS\<close> entries and does not check the writes: a
  write past that capacity has no result. The result is the stream written; the returned
  end pointer is its start plus its length. The stream buffer belongs to the caller, who
  sizes it with \<^verbatim>\<open>size_probe_stream\<close>.
\<close>

type_synonym Order_t = "16 word"

definition STREAM_MARK :: Order_t where
  "STREAM_MARK = - 1"

definition diff_step_d ::
  "nat \<Rightarrow> CElem_t list \<Rightarrow> nat \<Rightarrow> nat \<Rightarrow> (Order_t list \<times> Order_t list) option \<Rightarrow> nat
     \<Rightarrow> (Order_t list \<times> Order_t list) option" where
  "diff_step_d dimp probes s t acc d =
     (case acc of
        None \<Rightarrow> None
      | Some (stream, temp_cols) \<Rightarrow>
          (case probe_diff dimp probes s t d of
             None \<Rightarrow> None
           | Some diff \<Rightarrow>
               if diff < 0 then Some (stream @ replicate (nat (- diff)) (of_nat d), temp_cols)
               else if diff > 0
               then (if length temp_cols + nat diff \<le> dimp + MAX_NUM_SHELLS
                     then Some (stream, temp_cols @ replicate (nat diff) (of_nat d))
                     else None)
               else Some (stream, temp_cols)))"

definition diff_step_i ::
  "Dim_t \<Rightarrow> nat \<Rightarrow> CElem_t list \<Rightarrow> Order_t list option \<Rightarrow> nat \<Rightarrow> Order_t list option" where
  "diff_step_i dm dimp probes acc i =
     (case acc of
        None \<Rightarrow> None
      | Some stream \<Rightarrow>
          if dimp = 0 then None
          else
            let dimp2 = dimp * 2;
                s = flipIdx (i - 1) dimp dimp2;
                t = flipIdx i dimp dimp2;
                k = (if i mod dimp2 < dimp then i mod dimp else dm - i mod dimp)
            in case foldl (diff_step_d dimp probes s t) (Some (stream @ [of_nat k], [])) [0..<dimp] of
                 None \<Rightarrow> None
               | Some (stream', temp_cols) \<Rightarrow>
                   Some (stream' @ [STREAM_MARK] @ temp_cols @ [STREAM_MARK]))"

definition generate_probe_diffs :: "Dim_t \<Rightarrow> nat \<Rightarrow> CElem_t list \<Rightarrow> Order_t list option" where
  "generate_probe_diffs dm nprobes probes =
     foldl (diff_step_i dm ((dm + 1) mod 2 ^ 32) probes) (Some []) [1..<nprobes]"

text \<open>
  The difference of coordinate \<open>d\<close> between entry \<open>i\<close> and entry \<open>i - 1\<close> of the
  flipped order, as integers: what \<open>probe_diff\<close> computes when both reads are inside the
  array and the subtraction does not overflow.
\<close>

definition probe_delta :: "nat \<Rightarrow> CElem_t list \<Rightarrow> nat \<Rightarrow> nat \<Rightarrow> int" where
  "probe_delta dimp probes i d =
     probes ! (flipIdx i dimp (dimp * 2) * dimp + d)
       - probes ! (flipIdx (i - 1) dimp (dimp * 2) * dimp + d)"

section \<open>Scratch buffers and process-wide tables\<close>

text \<open>
  \<^verbatim>\<open>BuffStack(dim, num_buffers)\<close> links \<open>num_buffers\<close> work buffers of \<open>dim + 1\<close>
  elements each; \<^verbatim>\<open>get_buff\<close> hands out the next one and throws
  \<open>Error_insufficient_buffers\<close> when none is left. Only the number of buffers left
  matters, so a \<^verbatim>\<open>WorkBuff*\<close> is that number; \<open>get_buffs n\<close> is \<open>n\<close> calls of
  \<^verbatim>\<open>get_buff\<close> in a row. A function that can throw returns
  \<open>Inl\<close> of the error; one whose loops need not end, or that would read or write outside
  an array, returns \<open>None\<close> there.
\<close>

definition get_buff :: "nat \<Rightarrow> Error + nat" where
  "get_buff work_buff = (if work_buff = 0 then Inl Error_insufficient_buffers else Inr (work_buff - 1))"

fun get_buffs :: "nat \<Rightarrow> nat \<Rightarrow> Error + nat" where
  "get_buffs 0 work_buff = Inr work_buff"
| "get_buffs (Suc n) work_buff =
     (case get_buff work_buff of Inl e \<Rightarrow> Inl e | Inr work_buff' \<Rightarrow> get_buffs n work_buff')"

definition BuffStack :: "Dim_t \<Rightarrow> nat \<Rightarrow> Error + nat" where
  "BuffStack dm num_buffers = (if num_buffers \<le> 0 then Inl Error_unknown else Inr num_buffers)"

text \<open>
  \<^verbatim>\<open>START_SORT_ORD\<close> caches the identity permutation \<open>0, 1, .., m_dim\<close> and \<^verbatim>\<open>END_FILL\<close>
  an array of \<open>END\<close> sentinels; both start with \<open>initial_dim = 16\<close> and grow on demand
  (in the source both classes call their size \<open>m_dim\<close>). An \<^verbatim>\<open>Order_t\<close> slot that
  holds either an index or the sentinel \<open>END = (Order_t)(-1)\<close> is a \<open>nat option\<close>, with
  \<open>None\<close> for \<open>END\<close>.
\<close>

record StartSortOrd =
  m_ord :: "nat list"
  m_ord_dim :: nat


definition StartSortOrd_ord :: "Dim_t \<Rightarrow> StartSortOrd \<Rightarrow> nat list \<times> StartSortOrd" where
  "StartSortOrd_ord dm st =
     (if dm \<le> m_ord_dim st then (m_ord st, st)
      else let xs = m_ord st @ [m_ord_dim st + 1..<dm + 1]
           in (xs, \<lparr>m_ord = xs, m_ord_dim = dm\<rparr>))"

record EndFill =
  m_fill :: "nat option list"
  m_fill_dim :: nat


definition EndFill_fill :: "Dim_t \<Rightarrow> EndFill \<Rightarrow> nat option list \<times> EndFill" where
  "EndFill_fill dm st =
     (if dm \<le> m_fill_dim st then (m_fill st, st)
      else let xs = m_fill st @ replicate (dm - m_fill_dim st) None
           in (xs, \<lparr>m_fill = xs, m_fill_dim = dm\<rparr>))"

record Globals =
  POW_RADIX_st :: Hash_cache
  START_SORT_ORD_st :: StartSortOrd
  END_FILL_st :: EndFill



section \<open>AStarLattice: rounding and the closest lattice point\<close>

text \<open>
  \<^verbatim>\<open>round_up\<close> (common.h): \<open>x += 0.5; i = T(x); i -= (x < double(i))\<close>. The conversion
  \<open>T(x)\<close> of a double to an integer truncates towards zero.
\<close>

definition trunc_int :: "real \<Rightarrow> int" where
  "trunc_int x = (if 0 \<le> x then \<lfloor>x\<rfloor> else \<lceil>x\<rceil>)"

definition round_up :: "real \<Rightarrow> int" where
  "round_up x0 =
     (let x = x0 + 1 / 2;
          i = trunc_int x
      in i - (if x < of_int i then 1 else 0))"

text \<open>
  \<^verbatim>\<open>closest_point\<close>. The first loop rounds \<open>y\<^sub>i = v\<^sub>i / (dim + 1)\<close>, records \<open>c\<close>, \<open>z\<close>,
  \<open>sum\<close>, \<open>alpha\<close>, \<open>beta\<close>, and pushes \<open>i\<close> on the chain of bucket \<open>ii\<close>
  (\<open>link[i] = bucket[ii]; bucket[ii] = i\<close>).
\<close>

record cp_state =
  cp_sum :: int
  cp_alpha :: real
  cp_beta :: real
  cp_c :: "CElem_t list"
  cp_z :: "VElem_t list"
  cp_link :: "nat option list"
  cp_bucket :: "nat option list"

definition cp_bucket_of :: "Dim_t \<Rightarrow> real \<Rightarrow> nat" where
  "cp_bucket_of dm z_i = nat (int dm - trunc_int (real (dm + 1) * (z_i + 1 / 2)))"

definition cp_first :: "Dim_t \<Rightarrow> VElem_t list \<Rightarrow> cp_state \<Rightarrow> nat \<Rightarrow> cp_state" where
  "cp_first dm v st i =
     (let dimpd = real (dm + 1);
          y_i = v ! i / dimpd;
          y_round_i = round_up y_i;
          z_i = y_i - of_int y_round_i;
          ii = cp_bucket_of dm z_i
      in \<lparr>cp_sum = cp_sum st + y_round_i,
          cp_alpha = cp_alpha st + z_i,
          cp_beta = cp_beta st + z_i * z_i,
          cp_c = (cp_c st)[i := y_round_i],
          cp_z = (cp_z st)[i := z_i],
          cp_link = (cp_link st)[i := cp_bucket st ! ii],
          cp_bucket = (cp_bucket st)[ii := Some i]\<rparr>)"

text \<open>
  Both later loops walk a chain \<open>t, link[t], link[link[t]], \<dots>\<close> until \<open>END\<close>;
  \<open>chain\<close> is the sequence of indices such a walk visits. A walk that never reaches
  \<open>END\<close> has no result.
\<close>

partial_function (option) chain :: "nat option list \<Rightarrow> nat option \<Rightarrow> nat list option" where
  "chain link t =
     (case t of
        None \<Rightarrow> Some []
      | Some i \<Rightarrow> Option.bind (chain link (link ! i)) (\<lambda>r. Some (i # r)))"

declare chain.simps [code]

text \<open>
  The second loop visits the buckets \<open>0 .. dim\<close>; for a non-empty one it moves every
  member (\<open>alpha -= 1; beta = beta - 2 z[t] + 1\<close>), computes
  \<open>d = beta * dimpd - alpha * alpha\<close> and remembers the bucket in \<open>m\<close> when \<open>d < D\<close>.
  \<open>m\<close> is a pointer into \<open>bucket\<close>, null at first: \<open>None\<close>.
\<close>

definition cp_move :: "VElem_t list \<Rightarrow> real \<times> real \<Rightarrow> nat \<Rightarrow> real \<times> real" where
  "cp_move z ab t = (fst ab - 1, snd ab - 2 * z ! t + 1)"

definition cp_second ::
  "Dim_t \<Rightarrow> cp_state \<Rightarrow> (real \<times> real \<times> real \<times> nat option) option \<Rightarrow> nat
     \<Rightarrow> (real \<times> real \<times> real \<times> nat option) option" where
  "cp_second dm st acc p =
     (case acc of
        None \<Rightarrow> None
      | Some (alpha, beta, D, m) \<Rightarrow>
          (case cp_bucket st ! p of
             None \<Rightarrow> Some (alpha, beta, D, m)
           | Some t \<Rightarrow>
               (case chain (cp_link st) (Some t) of
                  None \<Rightarrow> None
                | Some ts \<Rightarrow>
                    let (alpha', beta') = foldl (cp_move (cp_z st)) (alpha, beta) ts;
                        d = beta' * real (dm + 1) - alpha' * alpha'
                    in if d < D then Some (alpha', beta', d, Some p)
                       else Some (alpha', beta', D, m))))"

text \<open>
  The third loop walks the buckets \<open>0 .. m\<close> again (none when \<open>m\<close> is null) and
  increments \<open>c[t]\<close> and \<open>sum\<close> for every member.
\<close>

definition cp_incr :: "CElem_t list \<times> int \<Rightarrow> nat \<Rightarrow> CElem_t list \<times> int" where
  "cp_incr cs t = ((fst cs)[t := fst cs ! t + 1], snd cs + 1)"

definition cp_third ::
  "cp_state \<Rightarrow> (CElem_t list \<times> int) option \<Rightarrow> nat \<Rightarrow> (CElem_t list \<times> int) option" where
  "cp_third st acc p =
     (case acc of
        None \<Rightarrow> None
      | Some cs \<Rightarrow>
          (case chain (cp_link st) (cp_bucket st ! p) of
             None \<Rightarrow> None
           | Some ts \<Rightarrow> Some (foldl cp_incr cs ts)))"

text \<open>
  The end of \<^verbatim>\<open>closest_point\<close>: \<open>k = ((-sum % dimp) + dimp) % dimp\<close> and
  \<open>s_k = (sum + k) / dimp\<close> with the truncating \<open>%\<close> and \<open>/\<close> of C++ (\<open>smod\<close>, \<open>sdiv\<close>),
  then \<open>c[i] -= s_k\<close>. The three work buffers \<open>z\<close>, \<open>link\<close>, \<open>bucket\<close> are taken first.
  What the buffers \<open>c\<close>, \<open>z\<close> and \<open>link\<close> hold at entry is overwritten before it is read;
  they start as zeros and \<open>END\<close>s here.
\<close>

definition closest_point ::
  "Dim_t \<Rightarrow> VElem_t list \<Rightarrow> nat \<Rightarrow> EndFill \<Rightarrow> (Error + K_t \<times> CElem_t list) option \<times> EndFill" where
  "closest_point dm v buff fill_st =
     (case get_buffs 3 buff of Inl e \<Rightarrow> (Some (Inl e), fill_st) | Inr buff3 \<Rightarrow>
        let dimp = dm + 1;
            (end_fill, fill_st') = EndFill_fill dm fill_st;
            st0 = \<lparr>cp_sum = 0, cp_alpha = 0, cp_beta = 0,
                   cp_c = replicate dimp 0, cp_z = replicate dimp 0,
                   cp_link = replicate dimp None, cp_bucket = take dimp end_fill\<rparr>;
            st = foldl (cp_first dm v) st0 [0..<dimp];
            D = cp_beta st * real dimp - cp_alpha st * cp_alpha st
        in (case foldl (cp_second dm st) (Some (cp_alpha st, cp_beta st, D, None)) [0..<dimp] of
              None \<Rightarrow> None
            | Some (alpha, beta, D', m) \<Rightarrow>
                (case foldl (cp_third st) (Some (cp_c st, cp_sum st))
                        (case m of None \<Rightarrow> [] | Some mp \<Rightarrow> [0..<mp + 1]) of
                   None \<Rightarrow> None
                 | Some (c, sm) \<Rightarrow>
                     let k = ((- sm) smod int dimp + int dimp) smod int dimp;
                         s_k = (sm + k) sdiv int dimp
                     in Some (Inr (k, map (\<lambda>x. x - s_k) c))),
            fill_st'))"


section \<open>AStarLattice: sorting an order array\<close>

text \<open>
  The sort works on the array \<open>ord\<close> of indices into \<open>val\<close>; a pointer into \<open>ord\<close> is
  its position, and the range \<open>[ord, ord_end)\<close> is \<open>[lo, hi)\<close>.
\<close>

definition swap :: "nat list \<Rightarrow> nat \<Rightarrow> nat \<Rightarrow> nat list" where
  "swap ord a b = (ord[a := ord ! b])[b := ord ! a]"

definition swap_less :: "VElem_t list \<Rightarrow> nat list \<Rightarrow> nat \<Rightarrow> nat \<Rightarrow> nat list" where
  "swap_less val ord a b = (if val ! (ord ! a) < val ! (ord ! b) then swap ord a b else ord)"

text \<open>
  \<^verbatim>\<open>insertion_sort_order\<close>: the inner while loop shifts entries up while
  \<open>ords_j >= ords && val < vals[*ords_j]\<close>; \<open>j1\<close> is the position \<open>ords_j + 1\<close>.
\<close>

function ins_shift :: "VElem_t list \<Rightarrow> nat \<Rightarrow> real \<Rightarrow> nat list \<Rightarrow> nat \<Rightarrow> nat list \<times> nat" where
  "ins_shift vals lo val ords j1 =
     (if lo < j1 \<and> val < vals ! (ords ! (j1 - 1))
      then ins_shift vals lo val (ords[j1 := ords ! (j1 - 1)]) (j1 - 1)
      else (ords, j1))"
  by pat_completeness auto
termination
  by (relation "measure (\<lambda>(vals, lo, val, ords, j1). j1)") auto

declare ins_shift.simps [simp del]

definition ins_step :: "VElem_t list \<Rightarrow> nat \<Rightarrow> nat list \<Rightarrow> nat \<Rightarrow> nat list" where
  "ins_step vals lo ords i =
     (let ord = ords ! i;
          val = vals ! ord;
          (ords', j1) = ins_shift vals lo val ords i
      in ords'[j1 := ord])"

definition insertion_sort_order :: "VElem_t list \<Rightarrow> nat list \<Rightarrow> nat \<Rightarrow> nat \<Rightarrow> nat list" where
  "insertion_sort_order vals ords lo hi = foldl (ins_step vals lo) ords [lo + 1..<hi]"

text \<open>
  The partition loop of \<^verbatim>\<open>sort_order\<close>. \<open>scan_left\<close> is
  \<open>do l_adv++ while (val[*l_adv] < temp_val)\<close> and \<open>scan_right\<close> is
  \<open>do r_adv-- while (temp_val < val[*r_adv])\<close>; a scan that leaves the array has no
  result. \<open>part_loop\<close> is the inner \<open>while (true)\<close>, returning the array and the final
  \<open>l_adv\<close> and \<open>r_adv\<close>.
\<close>

function scan_left :: "VElem_t list \<Rightarrow> nat list \<Rightarrow> real \<Rightarrow> nat \<Rightarrow> nat option" where
  "scan_left val ord temp_val l_adv =
     (let l = l_adv + 1
      in if l < length ord
         then (if val ! (ord ! l) < temp_val then scan_left val ord temp_val l else Some l)
         else None)"
  by pat_completeness auto
termination
  by (relation "measure (\<lambda>(val, ord, temp_val, l_adv). length ord - l_adv)") auto

declare scan_left.simps [simp del]

function scan_right :: "VElem_t list \<Rightarrow> nat list \<Rightarrow> real \<Rightarrow> nat \<Rightarrow> nat option" where
  "scan_right val ord temp_val r_adv =
     (if r_adv = 0 then None
      else let r = r_adv - 1
           in if temp_val < val ! (ord ! r) then scan_right val ord temp_val r else Some r)"
  by pat_completeness auto
termination
  by (relation "measure (\<lambda>(val, ord, temp_val, r_adv). r_adv)") auto

declare scan_right.simps [simp del]

lemma scan_right_less: "scan_right val ord temp_val r_adv = Some r \<Longrightarrow> r < r_adv"
proof (induction val ord temp_val r_adv rule: scan_right.induct)
  case (1 val ord temp_val r_adv)
  show ?case
  proof (cases "r_adv = 0")
    case True
    with 1(2) show ?thesis by (subst (asm) scan_right.simps) simp
  next
    case False
    show ?thesis
    proof (cases "temp_val < val ! (ord ! (r_adv - 1))")
      case True
      with False 1(2) have "scan_right val ord temp_val (r_adv - 1) = Some r"
        by (subst (asm) scan_right.simps) (simp add: Let_def)
      with 1(1) [OF False refl True] False show ?thesis by simp
    next
      case F: False
      with False 1(2) have "r = r_adv - 1"
        by (subst (asm) scan_right.simps) (simp add: Let_def)
      with False show ?thesis by simp
    qed
  qed
qed

function part_loop ::
  "VElem_t list \<Rightarrow> nat list \<Rightarrow> nat \<Rightarrow> nat \<Rightarrow> nat \<Rightarrow> (nat list \<times> nat \<times> nat) option" where
  "part_loop val ord lo l_adv r_adv =
     (let temp_val = val ! (ord ! lo)
      in case scan_left val ord temp_val l_adv of
           None \<Rightarrow> None
         | Some l \<Rightarrow>
             (case scan_right val ord temp_val r_adv of
                None \<Rightarrow> None
              | Some r \<Rightarrow>
                  if l \<ge> r then (if l = r then Some (ord, l + 1, r - 1) else Some (ord, l, r))
                  else part_loop val (swap ord l r) lo l r))"
  by pat_completeness auto
termination
  by (relation "measure (\<lambda>(val, ord, lo, l_adv, r_adv). r_adv)") (auto dest: scan_right_less)

declare part_loop.simps [simp del]

text \<open>
  \<^verbatim>\<open>sort_order\<close>: insertion sort up to \<open>INSERTION_SORT_THRESHOLD = 6\<close> entries;
  otherwise median of three, partition, a recursive call for the smaller part and the
  next round of the \<open>while (1)\<close> loop for the larger one.
\<close>

definition INSERTION_SORT_THRESHOLD :: nat where
  "INSERTION_SORT_THRESHOLD = 6"

partial_function (option) sort_order :: "VElem_t list \<Rightarrow> nat list \<Rightarrow> nat \<Rightarrow> nat \<Rightarrow> nat list option" where
  "sort_order val ord lo hi =
     (let sz = hi - lo;
          last = hi - 1
      in if sz \<le> INSERTION_SORT_THRESHOLD then Some (insertion_sort_order val ord lo hi)
         else
           let med = lo + sz div 2;
               ord1 = swap_less val ord last med;
               ord2 = swap_less val ord1 last lo;
               ord3 = swap_less val ord2 lo med;
               ord4 = swap ord3 med (lo + 1)
           in case part_loop val ord4 lo (lo + 1) last of
                None \<Rightarrow> None
              | Some (ord5, l_adv, r_adv) \<Rightarrow>
                  let ord6 = swap ord5 (l_adv - 1) lo;
                      num_left = l_adv - (lo + 1);
                      num_right = last - r_adv
                  in if num_left = 0
                     then (if num_right = 0 then Some ord6
                           else sort_order val ord6 (last + 1 - num_right) (last + 1))
                     else if num_right = 0 then sort_order val ord6 lo (lo + num_left)
                     else
                       let right_ord = last + 1 - num_right
                       in if num_left > num_right
                          then Option.bind (sort_order val ord6 right_ord (right_ord + num_right))
                                 (\<lambda>ord7. sort_order val ord7 lo (lo + num_left))
                          else Option.bind (sort_order val ord6 lo (lo + num_left))
                                 (\<lambda>ord7. sort_order val ord7 right_ord (right_ord + num_right)))"

declare sort_order.simps [code]


text \<open>
  \<^verbatim>\<open>setK0\<close>. The first loop writes \<open>c\<close> and \<open>xmod\<close> through advancing pointers and sums
  the rounded coordinates in \<open>h\<close>. For \<open>h = 0\<close> the identity permutation is copied into
  \<open>order\<close> and sorted there. Otherwise a work buffer \<open>sortord\<close> is taken, sorted, the
  first \<open>h\<close> (for \<open>h > 0\<close>) or the last \<open>-h\<close> (for \<open>h < 0\<close>) indices in it are adjusted,
  and the two \<^verbatim>\<open>memcpy\<close> calls rotate \<open>sortord\<close> into \<open>order\<close>. With \<open>|h| > dim + 1\<close> the
  loops and copies would leave \<open>sortord\<close>, and an index outside \<open>c\<close> would write outside
  it: no result.
\<close>

definition setK0_first ::
  "Dim_t \<Rightarrow> VElem_t list \<Rightarrow> CElem_t list \<times> VElem_t list \<times> int \<Rightarrow> nat
     \<Rightarrow> CElem_t list \<times> VElem_t list \<times> int" where
  "setK0_first dm v st i =
     (let (c, xmod, h) = st;
          dimpd = real (dm + 1);
          cx = round_up (v ! i / dimpd)
      in (c @ [cx], xmod @ [v ! i - of_int cx * dimpd], h + cx))"

definition setK0_adjust ::
  "int \<Rightarrow> real \<Rightarrow> (CElem_t list \<times> VElem_t list) option \<Rightarrow> nat
     \<Rightarrow> (CElem_t list \<times> VElem_t list) option" where
  "setK0_adjust delta dimpd acc idx =
     (case acc of
        None \<Rightarrow> None
      | Some (c, xmod) \<Rightarrow>
          if idx < length c \<and> idx < length xmod
          then Some (c[idx := c ! idx + delta], xmod[idx := xmod ! idx - of_int delta * dimpd])
          else None)"

definition setK0 ::
  "Dim_t \<Rightarrow> VElem_t list \<Rightarrow> nat \<Rightarrow> StartSortOrd
     \<Rightarrow> (Error + VElem_t list \<times> CElem_t list \<times> nat list) option \<times> StartSortOrd" where
  "setK0 dm v buff ord_st =
     (let dimp = dm + 1;
          dimpd = real dimp;
          (c, xmod, h) = foldl (setK0_first dm v) ([], [], 0) [0..<dimp]
      in if h = 0
         then
           let (start, ord_st') = StartSortOrd_ord dm ord_st
           in (case sort_order xmod (take dimp start) 0 dimp of
                 None \<Rightarrow> None
               | Some order \<Rightarrow> Some (Inr (xmod, c, order)),
               ord_st')
         else
           (case get_buff buff of
              Inl e \<Rightarrow> (Some (Inl e), ord_st)
            | Inr buff' \<Rightarrow>
                let (start, ord_st') = StartSortOrd_ord dm ord_st
                in (case sort_order xmod (take dimp start) 0 dimp of
                      None \<Rightarrow> None
                    | Some sortord \<Rightarrow>
                        if h > 0
                        then
                          (if h > int dimp then None
                           else case foldl (setK0_adjust (- 1) dimpd) (Some (c, xmod))
                                       (take (nat h) sortord) of
                                  None \<Rightarrow> None
                                | Some (c', xmod') \<Rightarrow>
                                    Some (Inr (xmod', c', drop (nat h) sortord @ take (nat h) sortord)))
                        else
                          (if - h > int dimp then None
                           else let part = nat (int dimp + h)
                                in case foldl (setK0_adjust 1 dimpd) (Some (c, xmod))
                                          (drop part sortord) of
                                     None \<Rightarrow> None
                                   | Some (c', xmod') \<Rightarrow>
                                       Some (Inr (xmod', c', drop part sortord @ take part sortord))),
                    ord_st')))"

section \<open>AStarNN: callbacks and queries\<close>

text \<open>
  The four callback interfaces, and what a query tells a callback: one \<open>init\<close> call and
  then \<open>match\<close> calls whose arguments depend on the interface (the \<^verbatim>\<open>MATCH\<close> macro). A
  query is modelled by the list of calls it makes, in order, on a callback that returns
  normally; the array arguments are recorded as they are at the call.
\<close>

datatype Callback = QueryCallback | QueryCallback_Hash | QueryCallback_CVector | QueryCallback_Point

datatype Event =
    Init Dim_t "VElem_t list"
  | Match Hash_t K_t "CElem_t list"
  | Match_Hash Hash_t
  | Match_CVector K_t "CElem_t list"
  | Match_Point "VElem_t list"


definition NEED_HASH :: "Callback \<Rightarrow> bool" where
  "NEED_HASH cb \<longleftrightarrow> cb = QueryCallback \<or> cb = QueryCallback_Hash"

definition MATCH :: "Callback \<Rightarrow> Dim_t \<Rightarrow> Hash_t \<Rightarrow> K_t \<Rightarrow> CElem_t list \<Rightarrow> Event" where
  "MATCH cb dm hash_code k c =
     (case cb of
        QueryCallback \<Rightarrow> Match hash_code k c
      | QueryCallback_Hash \<Rightarrow> Match_Hash hash_code
      | QueryCallback_CVector \<Rightarrow> Match_CVector k c
      | QueryCallback_Point \<Rightarrow> Match_Point (cvector_k_to_lattice_point_in_lattice_space dm c k))"


text \<open>
  A query returns the calls made, the error thrown if any, and the process-wide tables
  as the query leaves them; \<open>None\<close> when it has no defined result. The buffers taken at
  the start of each query are: one for \<open>lattice_point\<close> when the callback is a
  \<open>QueryCallback_Point\<close>, then \<open>mapped\<close>, \<open>c\<close> (and \<open>xmod\<close>, \<open>order\<close>,
  \<open>ordered_powers\<close>).
\<close>

type_synonym Query_result = "(Event list \<times> Error option \<times> Globals) option"

definition point_buffs :: "Callback \<Rightarrow> nat" where
  "point_buffs cb = (if cb = QueryCallback_Point then 1 else 0)"

definition nearest_probe :: "Callback \<Rightarrow> Dim_t \<Rightarrow> real \<Rightarrow> VElem_t list \<Rightarrow> Globals \<Rightarrow> Query_result" where
  "nearest_probe cb dm scale vector g =
     (case BuffStack dm 6 of Inl e \<Rightarrow> Some ([], Some e, g) | Inr stack \<Rightarrow>
      case get_buffs (point_buffs cb + 2) stack of Inl e \<Rightarrow> Some ([], Some e, g) | Inr buff \<Rightarrow>
        let mapped = to_lattice_space dm scale vector;
            calls = [Init dm mapped]
        in case closest_point dm mapped buff (END_FILL_st g) of
             (None, fill_st) \<Rightarrow> None
           | (Some (Inl e), fill_st) \<Rightarrow> Some (calls, Some e, g\<lparr>END_FILL_st := fill_st\<rparr>)
           | (Some (Inr (k, c)), fill_st) \<Rightarrow>
               let hash_code = (if NEED_HASH cb then hash dm c else 0)
               in Some (calls @ [MATCH cb dm hash_code k c], None, g\<lparr>END_FILL_st := fill_st\<rparr>))"

text \<open>
  \<^verbatim>\<open>_delaunay_probes\<close>: after the origin vertex, for \<open>k = 1 .. dim\<close> the loop decrements
  \<open>c[order[k - 1]]\<close>, hashes again when a hash is needed, and calls \<open>match\<close>.
\<close>

definition delaunay_step ::
  "Callback \<Rightarrow> Dim_t \<Rightarrow> nat list \<Rightarrow> (CElem_t list \<times> Hash_t \<times> Event list) option \<Rightarrow> nat
     \<Rightarrow> (CElem_t list \<times> Hash_t \<times> Event list) option" where
  "delaunay_step cb dm order acc k =
     (case acc of
        None \<Rightarrow> None
      | Some (c, hash_code, calls) \<Rightarrow>
          if k - 1 < length order \<and> order ! (k - 1) < length c
          then let c' = c[order ! (k - 1) := c ! (order ! (k - 1)) - 1];
                   hash_code' = (if NEED_HASH cb then hash dm c' else hash_code)
               in Some (c', hash_code', calls @ [MATCH cb dm hash_code' (int k) c'])
          else None)"

definition delaunay_probes :: "Callback \<Rightarrow> Dim_t \<Rightarrow> real \<Rightarrow> VElem_t list \<Rightarrow> Globals \<Rightarrow> Query_result" where
  "delaunay_probes cb dm scale vector g =
     (case BuffStack dm 5 of Inl e \<Rightarrow> Some ([], Some e, g) | Inr stack \<Rightarrow>
      case get_buffs (point_buffs cb + 4) stack of Inl e \<Rightarrow> Some ([], Some e, g) | Inr buff \<Rightarrow>
        let mapped = to_lattice_space dm scale vector;
            calls = [Init dm mapped]
        in case setK0 dm mapped buff (START_SORT_ORD_st g) of
             (None, ord_st) \<Rightarrow> None
           | (Some (Inl e), ord_st) \<Rightarrow> Some (calls, Some e, g\<lparr>START_SORT_ORD_st := ord_st\<rparr>)
           | (Some (Inr (xmod, c, order)), ord_st) \<Rightarrow>
               let hash_code = (if NEED_HASH cb then hash dm c else 0);
                   calls' = calls @ [MATCH cb dm hash_code 0 c]
               in case foldl (delaunay_step cb dm order) (Some (c, hash_code, calls')) [1..<dm + 1] of
                    None \<Rightarrow> None
                  | Some (c', hash_code', calls'') \<Rightarrow>
                      Some (calls'', None, g\<lparr>START_SORT_ORD_st := ord_st\<rparr>))"






text \<open>
  The engine. Its constructor validates the arguments, computes \<open>m_num_probes\<close>, has
  \<^verbatim>\<open>generate_probes\<close> fill a probe array of \<open>m_num_probes * (dim + 1)\<close> entries, and
  compiles the diff stream from it into a buffer of \<^verbatim>\<open>size_probe_stream\<close> entries,
  checking the returned end pointer against that size. The shell enumeration of
  \<^verbatim>\<open>generate_probes\<close> is not modelled: the constructor takes its outcome, the array it
  filled or the error it threw, as an argument, and the statements below hold whatever
  the array contains. \<open>AStarNN_stream\<close> is the part of the constructor after the three
  argument checks; it has no result when one of the two passes over the probes has none,
  or when the stream would not fit its buffer. The fields \<open>m_dim\<close>, ... of the class are
  \<open>nn_dim\<close>, ... here.
\<close>

record AStarNN =
  nn_dim :: Dim_t
  nn_num_shells :: nat
  nn_packing_radius :: real
  nn_scale :: real
  nn_num_probes :: nat
  nn_probe_diff_stream :: "Order_t list"



definition AStarNN_nearest_probe :: "AStarNN \<Rightarrow> Callback \<Rightarrow> VElem_t list \<Rightarrow> Globals \<Rightarrow> Query_result" where
  "AStarNN_nearest_probe e cb vector g = nearest_probe cb (nn_dim e) (nn_scale e) vector g"

definition AStarNN_delaunay_probes :: "AStarNN \<Rightarrow> Callback \<Rightarrow> VElem_t list \<Rightarrow> Globals \<Rightarrow> Query_result" where
  "AStarNN_delaunay_probes e cb vector g = delaunay_probes cb (nn_dim e) (nn_scale e) vector g"





text \<open>
  The states of the two index tables that occur: \<open>START_SORT_ORD\<close> holds the identity
  permutation and \<open>END_FILL\<close> holds sentinels only.
\<close>

definition ord_ok :: "StartSortOrd \<Rightarrow> bool" where
  "ord_ok st \<longleftrightarrow> m_ord st = [0..<m_ord_dim st + 1]"

definition fill_ok :: "EndFill \<Rightarrow> bool" where
  "fill_ok st \<longleftrightarrow> m_fill st = replicate (m_fill_dim st + 1) None"

text \<open>
  The shape of a diff stream: a column entry is not the mark and lies below \<open>dimp\<close>; a
  segment is a remainder word, the decrement columns, a mark, the increment columns and a
  mark. \<open>walk_ready\<close> collects what a walk over such a stream needs of the arrays it
  indexes.
\<close>

definition cols_ok :: "nat \<Rightarrow> Order_t list \<Rightarrow> bool" where
  "cols_ok dimp cols \<longleftrightarrow> (\<forall>x \<in> set cols. x \<noteq> STREAM_MARK \<and> unat x < dimp)"


section \<open>Lemmas on the conversion loops\<close>

lemma map_nth_upt:
  "n \<le> length xs \<Longrightarrow> map (\<lambda>j. f (xs ! j)) [0..<n] = map f (take n xs)"
  by (rule nth_equalityI) simp_all

lemma sum_nth_upt:
  fixes xs :: "'a::comm_monoid_add list"
  shows "(\<Sum>j = 0..<length xs. xs ! j) = sum_list xs"
  by (simp add: sum_list_sum_nth)

lemma int32_cong: "x mod 2 ^ 32 = y mod 2 ^ 32 \<Longrightarrow> int32 x = int32 y"
proof -
  assume a: "x mod 2 ^ 32 = y mod 2 ^ 32"
  have "(x + 2 ^ 31) mod 2 ^ 32 = (x mod 2 ^ 32 + 2 ^ 31) mod 2 ^ 32"
    by (simp add: mod_add_left_eq)
  also have "\<dots> = (y mod 2 ^ 32 + 2 ^ 31) mod 2 ^ 32" by (simp only: a)
  also have "\<dots> = (y + 2 ^ 31) mod 2 ^ 32"
    by (simp add: mod_add_left_eq)
  finally show ?thesis by (simp add: int32_def)
qed

lemma int32_mod: "int32 x mod 2 ^ 32 = x mod 2 ^ 32"
proof -
  have "int32 x mod 2 ^ 32 = ((x + 2 ^ 31) mod 2 ^ 32 - 2 ^ 31) mod 2 ^ 32"
    by (simp add: int32_def)
  also have "\<dots> = (x + 2 ^ 31 - 2 ^ 31) mod 2 ^ 32"
    by (rule mod_diff_left_eq)
  finally show ?thesis by simp
qed

lemma int32_id: "is_int32 x \<Longrightarrow> int32 x = x"
  by (simp add: is_int32_def int32_def)

lemma is_int32_int32: "is_int32 (int32 x)"
proof -
  have "0 \<le> (x + 2 ^ 31) mod 2 ^ 32" "(x + 2 ^ 31) mod (2 ^ 32 :: int) < 2 ^ 32"
    by simp_all
  then show ?thesis by (simp add: is_int32_def int32_def)
qed

lemma int32_add_left: "int32 (int32 a + b) = int32 (a + b)"
  by (rule int32_cong) (rule mod_add_cong [OF int32_mod refl])

lemma int32_diff_left: "int32 (int32 a - b) = int32 (a - b)"
  by (rule int32_cong) (rule mod_diff_cong [OF int32_mod refl])

lemma int32_minus: "int32 (- int32 a) = int32 (- a)"
proof (rule int32_cong)
  have "(- int32 a) mod 2 ^ 32 = (- (int32 a mod 2 ^ 32)) mod 2 ^ 32"
    by (simp add: mod_minus_eq)
  also have "\<dots> = (- (a mod 2 ^ 32)) mod 2 ^ 32" by (simp only: int32_mod)
  also have "\<dots> = (- a) mod 2 ^ 32" by (simp add: mod_minus_eq)
  finally show "(- int32 a) mod 2 ^ 32 = (- a) mod 2 ^ 32" .
qed

lemma int32_out: "int32 (- int32 (int32 (a * d) + k)) = int32 (- (a * d + k))"
  by (simp only: int32_minus int32_add_left)

lemma as_int32_small: "x < 2 ^ 31 \<Longrightarrow> as_int32 x = int x"
  by (simp add: as_int32_def)

lemma cvector_out_loop_eq:
  "i < dimp \<Longrightarrow> dimp \<le> length c \<Longrightarrow>
   cvector_out_loop (int dimp) c k i v_out =
     v_out @ map (\<lambda>j. real_of_int (int32 (- (c ! j * int dimp + k)))) [i..<dimp]"
proof (induction "dimp - i" arbitrary: i v_out)
  case 0
  then show ?case by simp
next
  case (Suc d)
  show ?case
  proof (cases "i + 1 < dimp")
    case True
    have "[i..<dimp] = i # [i + 1..<dimp]"
      using True by (simp add: upt_conv_Cons)
    moreover have "d = dimp - (i + 1)" using Suc.hyps(2) by simp
    ultimately show ?thesis
      using Suc.hyps(1) [of "i + 1"] True Suc.prems
      by (subst cvector_out_loop.simps) (simp add: Let_def int32_out)
  next
    case False
    with Suc.prems have "dimp = i + 1" by simp
    then show ?thesis
      by (subst cvector_out_loop.simps) (simp add: int32_out)
  qed
qed

lemma cvector_k_loop_eq:
  "i < dimp \<Longrightarrow> dimp \<le> length c \<Longrightarrow>
   cvector_k_loop (int dimp) c i k = int32 (k - (\<Sum>j = i..<dimp. c ! j))"
proof (induction "dimp - i" arbitrary: i k)
  case 0
  then show ?case by simp
next
  case (Suc d)
  show ?case
  proof (cases "i + 1 < dimp")
    case True
    have d: "d = dimp - (i + 1)" using Suc.hyps(2) by simp
    have "cvector_k_loop (int dimp) c i k = cvector_k_loop (int dimp) c (i + 1) (int32 (k - c ! i))"
      using True by (subst cvector_k_loop.simps) (simp add: Let_def)
    also have "\<dots> = int32 (int32 (k - c ! i) - (\<Sum>j = i + 1..<dimp. c ! j))"
      using Suc.hyps(1) [OF d True Suc.prems(2)] .
    also have "\<dots> = int32 (k - c ! i - (\<Sum>j = i + 1..<dimp. c ! j))"
      by (rule int32_diff_left)
    also have "k - c ! i - (\<Sum>j = i + 1..<dimp. c ! j) = k - (\<Sum>j = i..<dimp. c ! j)"
      using True by (simp add: sum.atLeast_Suc_lessThan)
    finally show ?thesis .
  next
    case False
    with Suc.prems have "dimp = i + 1" by simp
    then show ?thesis
      by (subst cvector_k_loop.simps) simp
  qed
qed

lemma cvector_to_k_eq:
  assumes "dm + 1 < 2 ^ 31" and "length c = dm + 1"
  shows "cvector_to_k dm c = int32 (- sum_list c)"
proof -
  have "(\<Sum>j = 0..<dm + 1. c ! j) = sum_list c"
    using assms(2) by (metis sum_list_sum_nth)
  then show ?thesis
    unfolding cvector_to_k_def as_int32_small [OF assms(1)]
    using assms(2) cvector_k_loop_eq [of 0 "dm + 1" c 0] by simp
qed

lemma cvector_k_to_point_eq:
  assumes "dm + 1 < 2 ^ 31" and "length c = dm + 1"
  shows "cvector_k_to_lattice_point_in_lattice_space dm c k =
     map (\<lambda>x. real_of_int (int32 (- (x * int (dm + 1) + k)))) c"
proof -
  have "map (\<lambda>j. real_of_int (int32 (- (c ! j * int (dm + 1) + k)))) [0..<dm + 1] =
        map (\<lambda>x. real_of_int (int32 (- (x * int (dm + 1) + k)))) (map (\<lambda>j. c ! j) [0..<length c])"
    using assms(2) by simp
  also have "\<dots> = map (\<lambda>x. real_of_int (int32 (- (x * int (dm + 1) + k)))) c"
    by (simp only: map_nth)
  finally show ?thesis
    unfolding cvector_k_to_lattice_point_in_lattice_space_def as_int32_small [OF assms(1)]
    using assms(2) cvector_out_loop_eq [of 0 "dm + 1" c k "[]"] by simp
qed

lemma cvector_to_point_eq:
  assumes "dm + 1 < 2 ^ 31" and "length c = dm + 1"
  shows "cvector_to_lattice_point_in_lattice_space dm c =
     map (\<lambda>x. real_of_int (int32 (- (x * int (dm + 1) + cvector_to_k dm c)))) c"
  using cvector_k_to_point_eq [OF assms, of "cvector_to_k dm c"]
  by (simp add: cvector_to_lattice_point_in_lattice_space_def
      cvector_k_to_lattice_point_in_lattice_space_def)

lemma sum_list_cvector_point:
  "sum_list (map (\<lambda>x. real_of_int (- (x * N + k))) c) =
     real_of_int (- (N * sum_list c + int (length c) * k))"
  by (induction c) (simp_all add: algebra_simps)

lemma to_lattice_sum_loop_eq:
  "i < dm \<Longrightarrow> dm \<le> length v_in \<Longrightarrow>
   to_lattice_sum_loop dm v_in i sm = sm + (\<Sum>j = i..<dm. v_in ! j)"
proof (induction dm v_in i sm rule: to_lattice_sum_loop.induct)
  case (1 dm v_in i sm)
  show ?case
  proof (cases "i + 1 < dm")
    case True
    with 1 show ?thesis
      by (subst to_lattice_sum_loop.simps) (simp add: Let_def sum.atLeast_Suc_lessThan)
  next
    case False
    with 1 have "dm = i + 1" by simp
    then show ?thesis
      by (subst to_lattice_sum_loop.simps) simp
  qed
qed

lemma to_lattice_out_loop_eq:
  "i < dm \<Longrightarrow> dm \<le> length v_in \<Longrightarrow>
   to_lattice_out_loop dm scale t v_in i v_out =
     v_out @ map (\<lambda>j. scale * (v_in ! j - t)) [i..<dm]"
proof (induction dm scale t v_in i v_out rule: to_lattice_out_loop.induct)
  case (1 dm scale t v_in i v_out)
  show ?case
  proof (cases "i + 1 < dm")
    case True
    have "[i..<dm] = i # [i + 1..<dm]"
      using True by (simp add: upt_conv_Cons)
    with 1 True show ?thesis
      by (subst to_lattice_out_loop.simps) (simp add: Let_def)
  next
    case False
    with 1 have "dm = i + 1" by simp
    then show ?thesis
      by (subst to_lattice_out_loop.simps) simp
  qed
qed


lemma to_lattice_space_eq:
  assumes "1 \<le> dm" and "length v = dm"
  shows "to_lattice_space dm scale v =
     map (\<lambda>x. scale * (x - (- sum_list v / sqrt (real dm + 1) + sum_list v) / real dm)) v
       @ [scale * (- sum_list v / sqrt (real dm + 1))]"
proof -
  have i: "0 < dm" "dm \<le> length v" using assms by simp_all
  have s: "to_lattice_sum_loop dm v 0 0 = sum_list v"
    using to_lattice_sum_loop_eq [OF i, of 0] sum_nth_upt [of v] assms(2) by simp
  have m: "to_lattice_out_loop dm scale t v 0 [] = map (\<lambda>x. scale * (x - t)) v" for t
    using to_lattice_out_loop_eq [OF i, of scale t "[]"] map_nth_upt [of dm v "\<lambda>x. scale * (x - t)"] i(2) assms(2)
    by simp
  show ?thesis
    unfolding to_lattice_space_def Let_def s m ..
qed


section \<open>Lemmas on the hash kernel\<close>

lemma hash_loop_eq:
  "i \<le> dm \<Longrightarrow>
   hash_loop dm c i h (RADIX ^ i) = h + (\<Sum>j = i..<dm + 1. word_of_int (c ! j) * RADIX ^ j)"
proof (induction "dm - i" arbitrary: i h)
  case 0
  then have "i = dm" by simp
  then show ?case
    by (subst hash_loop.simps) simp
next
  case (Suc d)
  then have lt: "i + 1 \<le> dm" and d: "d = dm - (i + 1)" by simp_all
  have "hash_loop dm c i h (RADIX ^ i) =
        hash_loop dm c (i + 1) (h + word_of_int (c ! i) * RADIX ^ i) (RADIX ^ (i + 1))"
    using lt by (subst hash_loop.simps) (simp add: Let_def mult.commute [of _ RADIX])
  also have "\<dots> = (h + word_of_int (c ! i) * RADIX ^ i)
                     + (\<Sum>j = i + 1..<dm + 1. word_of_int (c ! j) * RADIX ^ j)"
    using Suc.hyps(1) [OF d lt] .
  also have "\<dots> = h + (\<Sum>j = i..<dm + 1. word_of_int (c ! j) * RADIX ^ j)"
    using lt by (simp add: sum.atLeast_Suc_lessThan add.assoc)
  finally show ?case .
qed

lemma hash_eq: "hash dm c = (\<Sum>j = 0..<dm + 1. word_of_int (c ! j) * RADIX ^ j)"
  using hash_loop_eq [of 0 dm c 0] by (simp add: hash_def)

lemma fill_powers_eq:
  "1 \<le> i \<Longrightarrow> i \<le> dm + 1 \<Longrightarrow> xs = map (\<lambda>j. RADIX ^ j) [0..<i] \<Longrightarrow>
   fill_powers i dm xs = map (\<lambda>j. RADIX ^ j) [0..<dm + 1]"
proof (induction "dm + 1 - i" arbitrary: i xs)
  case 0
  then have "i = dm + 1" by simp
  with 0 show ?case
    by (subst fill_powers.simps) simp
next
  case (Suc d)
  then have le: "i \<le> dm" and d: "d = dm + 1 - (i + 1)" by simp_all
  have nth: "xs ! (i - 1) = RADIX ^ (i - 1)"
    using Suc.prems by simp
  have app: "xs @ [xs ! (i - 1) * RADIX] = map (\<lambda>j. RADIX ^ j) [0..<i + 1]"
  proof -
    have "RADIX ^ (i - 1) * RADIX = RADIX ^ i"
      using Suc.prems(1) by (cases i) simp_all
    then show ?thesis using Suc.prems(3) nth by simp
  qed
  have "fill_powers (i + 1) dm (xs @ [xs ! (i - 1) * RADIX]) = map (\<lambda>j. RADIX ^ j) [0..<dm + 1]"
    by (rule Suc.hyps(1) [OF d _ _ app]) (use le in simp_all)
  moreover have "fill_powers i dm xs = fill_powers (i + 1) dm (xs @ [xs ! (i - 1) * RADIX])"
    using le by (subst fill_powers.simps) simp
  ultimately show ?case by (simp only:)
qed

lemma cache_ok_init: "cache_ok (Hash_init n)"
  using fill_powers_eq [of 1 n "[1]"] by (simp add: cache_ok_def Hash_init_def)

lemma powers_ok:
  assumes "cache_ok st"
  shows "cache_ok (snd (powers dm st))"
    and "fst (powers dm st) = map (\<lambda>i. RADIX ^ i) [0..<max dm (m_dim st) + 1]"
proof -
  have g: "fill_powers (m_dim st + 1) dm (m_x st) = map (\<lambda>j. RADIX ^ j) [0..<dm + 1]"
    if "m_dim st < dm"
    using that assms fill_powers_eq [of "m_dim st + 1" dm "m_x st"] by (simp add: cache_ok_def)
  show "cache_ok (snd (powers dm st))"
    using assms g by (simp add: powers_def cache_ok_def Let_def)
  show "fst (powers dm st) = map (\<lambda>i. RADIX ^ i) [0..<max dm (m_dim st) + 1]"
    using assms g by (auto simp add: powers_def cache_ok_def Let_def max_def)
qed

lemma makeOrdered_loop_eq:
  "i \<le> dm \<Longrightarrow>
   makeOrdered_loop dm p order i out = out @ map (\<lambda>j. p ! (order ! j)) [i..<dm + 1]"
proof (induction "dm - i" arbitrary: i out)
  case 0
  then have "i = dm" by simp
  then show ?case
    by (subst makeOrdered_loop.simps) simp
next
  case (Suc d)
  then have lt: "i + 1 \<le> dm" and d: "d = dm - (i + 1)" by simp_all
  have "[i..<dm + 1] = i # [i + 1..<dm + 1]"
    using lt by (simp add: upt_conv_Cons)
  then show ?case
    using Suc.hyps(1) [OF d lt] lt by (subst makeOrdered_loop.simps) (simp add: Let_def)
qed

lemma makeOrdered_nth:
  assumes "cache_ok st" and "l \<le> dm" and "order ! l \<le> dm"
  shows "fst (makeOrdered dm order st) ! l = RADIX ^ (order ! l)"
proof -
  have "fst (makeOrdered dm order st) = map (\<lambda>j. fst (powers dm st) ! (order ! j)) [0..<dm + 1]"
    using makeOrdered_loop_eq [of 0 dm "fst (powers dm st)" order "[]"]
    by (simp add: makeOrdered_def split_def Let_def)
  then have "fst (makeOrdered dm order st) ! l = fst (powers dm st) ! (order ! l)"
    using assms(2) by (simp del: upt_Suc)
  also have "\<dots> = RADIX ^ (order ! l)"
    using assms(3) by (simp add: powers_ok(2) [OF assms(1)] del: upt_Suc)
  finally show ?thesis .
qed

lemma hash_increment:
  assumes "j0 \<le> dm" and "length c = dm + 1"
  shows "hash dm (c[j0 := c ! j0 + 1]) - hash dm c = RADIX ^ j0"
proof -
  let ?f = "\<lambda>c j. (word_of_int (c ! j) :: Hash_t) * RADIX ^ j"
  let ?c' = "c[j0 := c ! j0 + 1]"
  have in_set: "j0 \<in> {0..<dm + 1}" using assms(1) by simp
  have a: "hash dm ?c' = ?f ?c' j0 + sum (?f ?c') ({0..<dm + 1} - {j0})"
    unfolding hash_eq by (rule sum.remove [OF _ in_set]) simp
  have b: "hash dm c = ?f c j0 + sum (?f c) ({0..<dm + 1} - {j0})"
    unfolding hash_eq by (rule sum.remove [OF _ in_set]) simp
  have rest: "sum (?f ?c') ({0..<dm + 1} - {j0}) = sum (?f c) ({0..<dm + 1} - {j0})"
    by (rule sum.cong) auto
  have here: "?f ?c' j0 = ?f c j0 + RADIX ^ j0"
    using assms by (simp add: algebra_simps)
  show ?thesis
    unfolding a b rest here by simp
qed


section \<open>Lemmas on the probe diff stream\<close>


lemma probe_diff_in_range:
  assumes "s < n" and "t < n" and "d < dimp" and "length probes = n * dimp"
  shows "probe_diff dimp probes s t d = Some (int32 (probes ! (t * dimp + d) - probes ! (s * dimp + d)))"
proof -
  have "x * dimp + d < n * dimp" if "x < n" for x
  proof -
    have "x * dimp + d < (x + 1) * dimp" using assms(3) by simp
    also have "\<dots> \<le> n * dimp" using that by (intro mult_le_mono1) simp
    finally show ?thesis .
  qed
  then show ?thesis using assms by (simp add: probe_diff_def)
qed

lemma size_inner_None: "foldl (size_step_d dimp probes s t) None ds = None"
  by (induction ds) (simp_all add: size_step_d_def)


lemma size_step_i_None: "size_step_i dimp probes None i = None"
  by (simp add: size_step_i_def size_inner_None Let_def)

lemma size_outer_None: "foldl (size_step_i dimp probes) None is = None"
  by (induction "is") (simp_all add: size_step_i_None)


lemma size_add_mod:
  assumes "\<bar>x\<bar> < 2 ^ 31"
  shows "nat ((int sz + int32 \<bar>x\<bar>) mod 2 ^ 64) = (sz + nat \<bar>x\<bar>) mod 2 ^ 64"
proof -
  have "is_int32 \<bar>x\<bar>" using assms by (simp add: is_int32_def)
  then have "int32 \<bar>x\<bar> = \<bar>x\<bar>" by (rule int32_id)
  moreover have "int sz + \<bar>x\<bar> = int (sz + nat \<bar>x\<bar>)" by simp
  ultimately have "(int sz + int32 \<bar>x\<bar>) mod 2 ^ 64 = int (sz + nat \<bar>x\<bar>) mod 2 ^ 64"
    by (simp only:)
  also have "\<dots> = int ((sz + nat \<bar>x\<bar>) mod 2 ^ 64)"
    by (simp add: of_nat_mod)
  finally show ?thesis by (simp only: nat_int)
qed

lemma size_inner_eq:
  assumes "\<forall>d \<in> set ds. probe_diff dimp probes s t d = Some (f d) \<and> \<bar>f d\<bar> < 2 ^ 31"
    and "sz < 2 ^ 64"
  shows "foldl (size_step_d dimp probes s t) (Some sz) ds =
           Some ((sz + (\<Sum>d\<leftarrow>ds. nat \<bar>f d\<bar>)) mod 2 ^ 64)"
  using assms
proof (induction ds arbitrary: sz)
  case Nil
  then show ?case by simp
next
  case (Cons d ds)
  have d: "probe_diff dimp probes s t d = Some (f d)" "\<bar>f d\<bar> < 2 ^ 31"
    using Cons.prems(1) by simp_all
  let ?sz1 = "(sz + nat \<bar>f d\<bar>) mod 2 ^ 64"
  have step: "size_step_d dimp probes s t (Some sz) d = Some ?sz1"
    unfolding size_step_d_def d(1) option.case by (simp only: size_add_mod [OF d(2)])
  have rest: "\<forall>d \<in> set ds. probe_diff dimp probes s t d = Some (f d) \<and> \<bar>f d\<bar> < 2 ^ 31"
    using Cons.prems(1) by simp
  have lt: "?sz1 < 2 ^ 64" by simp
  have "foldl (size_step_d dimp probes s t) (Some sz) (d # ds) =
        Some ((?sz1 + (\<Sum>d\<leftarrow>ds. nat \<bar>f d\<bar>)) mod 2 ^ 64)"
    using Cons.IH [OF rest lt] by (simp add: step)
  also have "(?sz1 + (\<Sum>d\<leftarrow>ds. nat \<bar>f d\<bar>)) mod 2 ^ 64 =
        (sz + nat \<bar>f d\<bar> + (\<Sum>d\<leftarrow>ds. nat \<bar>f d\<bar>)) mod 2 ^ 64"
    by (rule mod_add_left_eq)
  finally show ?case by (simp add: add.assoc)
qed

lemma diff_inner_eq:
  assumes "\<forall>d \<in> set ds. probe_diff dimp probes s t d = Some (f d)"
    and "length temp + (\<Sum>d\<leftarrow>ds. nat (f d)) \<le> dimp + MAX_NUM_SHELLS"
  shows "foldl (diff_step_d dimp probes s t) (Some (stream, temp)) ds =
           Some (stream @ concat (map (\<lambda>d. replicate (nat (- f d)) (of_nat d)) ds),
                 temp @ concat (map (\<lambda>d. replicate (nat (f d)) (of_nat d)) ds))"
  using assms
proof (induction ds arbitrary: stream temp)
  case Nil
  then show ?case by simp
next
  case (Cons d ds)
  have d: "probe_diff dimp probes s t d = Some (f d)"
    using Cons.prems(1) by simp
  let ?st1 = "stream @ replicate (nat (- f d)) (of_nat d)"
  let ?tm1 = "temp @ replicate (nat (f d)) (of_nat d)"
  have cap: "length temp + nat (f d) \<le> dimp + MAX_NUM_SHELLS"
    using Cons.prems(2) by simp
  have step: "diff_step_d dimp probes s t (Some (stream, temp)) d = Some (?st1, ?tm1)"
    using cap by (simp add: diff_step_d_def d)
  have rest: "\<forall>d \<in> set ds. probe_diff dimp probes s t d = Some (f d)"
    using Cons.prems(1) by simp
  have cap': "length ?tm1 + (\<Sum>d\<leftarrow>ds. nat (f d)) \<le> dimp + MAX_NUM_SHELLS"
    using Cons.prems(2) by simp
  show ?case
    using Cons.IH [OF rest cap'] by (simp add: step)
qed

lemma length_concat_replicate:
  "length (concat (map (\<lambda>d. replicate (g d) (h d)) ds)) = (\<Sum>d\<leftarrow>ds. g d)"
  by (induction ds) simp_all

lemma nat_neg_pos: "nat (- x) + nat x = nat \<bar>x\<bar>" for x :: int
  by simp

lemma sum_list_neg_pos:
  "(\<Sum>d\<leftarrow>ds. nat (- f d)) + (\<Sum>d\<leftarrow>ds. nat (f d)) = (\<Sum>d\<leftarrow>ds. nat \<bar>f d :: int\<bar>)"
  by (induction ds) simp_all

lemma step_i_eq:
  assumes dimp: "0 < dimp"
    and defd: "\<forall>d \<in> set [0..<dimp].
        probe_diff dimp probes (flipIdx (i - 1) dimp (dimp * 2)) (flipIdx i dimp (dimp * 2)) d = Some (f d)
        \<and> \<bar>f d\<bar> < 2 ^ 31"
    and cap: "(\<Sum>d\<leftarrow>[0..<dimp]. nat (f d)) \<le> dimp + MAX_NUM_SHELLS"
    and sz: "sz < 2 ^ 64"
  shows "\<exists>stream'. diff_step_i dm dimp probes (Some stream) i = Some stream'
           \<and> length stream' = length stream + 3 + (\<Sum>d\<leftarrow>[0..<dimp]. nat \<bar>f d\<bar>)"
    and "size_step_i dimp probes (Some sz) i = Some ((sz + (\<Sum>d\<leftarrow>[0..<dimp]. nat \<bar>f d\<bar>)) mod 2 ^ 64)"
proof -
  let ?s = "flipIdx (i - 1) dimp (dimp * 2)" and ?t = "flipIdx i dimp (dimp * 2)"
  let ?k = "if i mod (dimp * 2) < dimp then i mod dimp else dm - i mod dimp"
  let ?negs = "concat (map (\<lambda>d. replicate (nat (- f d)) (of_nat d :: Order_t)) [0..<dimp])"
  let ?poss = "concat (map (\<lambda>d. replicate (nat (f d)) (of_nat d :: Order_t)) [0..<dimp])"
  have d1: "\<forall>d \<in> set [0..<dimp]. probe_diff dimp probes ?s ?t d = Some (f d)"
    using defd by blast
  have cap0: "length ([] :: Order_t list) + (\<Sum>d\<leftarrow>[0..<dimp]. nat (f d)) \<le> dimp + MAX_NUM_SHELLS"
    using cap by simp
  have inner: "foldl (diff_step_d dimp probes ?s ?t) (Some (stream @ [of_nat ?k], [])) [0..<dimp] =
      Some ((stream @ [of_nat ?k]) @ ?negs, [] @ ?poss)"
    by (rule diff_inner_eq [OF d1 cap0])
  have res: "diff_step_i dm dimp probes (Some stream) i =
      Some (((stream @ [of_nat ?k]) @ ?negs) @ [STREAM_MARK] @ ([] @ ?poss) @ [STREAM_MARK])"
    using dimp unfolding diff_step_i_def Let_def option.case inner by simp
  have len: "length ?negs + length ?poss = (\<Sum>d\<leftarrow>[0..<dimp]. nat \<bar>f d\<bar>)"
    by (simp only: length_concat_replicate sum_list_neg_pos)
  show "\<exists>stream'. diff_step_i dm dimp probes (Some stream) i = Some stream'
           \<and> length stream' = length stream + 3 + (\<Sum>d\<leftarrow>[0..<dimp]. nat \<bar>f d\<bar>)"
    using len unfolding res by simp
  show "size_step_i dimp probes (Some sz) i = Some ((sz + (\<Sum>d\<leftarrow>[0..<dimp]. nat \<bar>f d\<bar>)) mod 2 ^ 64)"
    using dimp size_inner_eq [OF defd sz] by (simp add: size_step_i_def Let_def)
qed

lemma outer_eq:
  assumes dimp: "0 < dimp"
    and defd: "\<forall>i \<in> set is. \<forall>d \<in> set [0..<dimp].
        probe_diff dimp probes (flipIdx (i - 1) dimp (dimp * 2)) (flipIdx i dimp (dimp * 2)) d = Some (f i d)
        \<and> \<bar>f i d\<bar> < 2 ^ 31"
    and cap: "\<forall>i \<in> set is. (\<Sum>d\<leftarrow>[0..<dimp]. nat (f i d)) \<le> dimp + MAX_NUM_SHELLS"
    and sz: "sz < 2 ^ 64"
  shows "\<exists>stream'. foldl (diff_step_i dm dimp probes) (Some stream) is = Some stream'
           \<and> length stream' = length stream + 3 * length is
                + (\<Sum>i\<leftarrow>is. \<Sum>d\<leftarrow>[0..<dimp]. nat \<bar>f i d\<bar>)
           \<and> foldl (size_step_i dimp probes) (Some sz) is =
                Some ((sz + (\<Sum>i\<leftarrow>is. \<Sum>d\<leftarrow>[0..<dimp]. nat \<bar>f i d\<bar>)) mod 2 ^ 64)"
  using defd cap sz
proof (induction "is" arbitrary: stream sz)
  case Nil
  then show ?case by simp
next
  case (Cons i "is")
  let ?S = "\<Sum>d\<leftarrow>[0..<dimp]. nat \<bar>f i d\<bar>"
  have d1: "\<forall>d \<in> set [0..<dimp].
        probe_diff dimp probes (flipIdx (i - 1) dimp (dimp * 2)) (flipIdx i dimp (dimp * 2)) d = Some (f i d)
        \<and> \<bar>f i d\<bar> < 2 ^ 31"
    using Cons.prems(1) by simp
  have c1: "(\<Sum>d\<leftarrow>[0..<dimp]. nat (f i d)) \<le> dimp + MAX_NUM_SHELLS"
    using Cons.prems(2) by simp
  from step_i_eq(1) [OF dimp d1 c1 Cons.prems(3), of dm stream] obtain stream1 where
    s1: "diff_step_i dm dimp probes (Some stream) i = Some stream1"
      "length stream1 = length stream + 3 + ?S"
    by blast
  have z1: "size_step_i dimp probes (Some sz) i = Some ((sz + ?S) mod 2 ^ 64)"
    by (rule step_i_eq(2) [OF dimp d1 c1 Cons.prems(3)])
  have rest: "\<forall>i \<in> set is. \<forall>d \<in> set [0..<dimp].
        probe_diff dimp probes (flipIdx (i - 1) dimp (dimp * 2)) (flipIdx i dimp (dimp * 2)) d = Some (f i d)
        \<and> \<bar>f i d\<bar> < 2 ^ 31"
    and crest: "\<forall>i \<in> set is. (\<Sum>d\<leftarrow>[0..<dimp]. nat (f i d)) \<le> dimp + MAX_NUM_SHELLS"
    using Cons.prems(1,2) by simp_all
  have lt: "(sz + ?S) mod 2 ^ 64 < (2 ^ 64 :: nat)" by simp
  from Cons.IH [OF rest crest lt, of stream1] obtain stream' where
    r: "foldl (diff_step_i dm dimp probes) (Some stream1) is = Some stream'"
      "length stream' = length stream1 + 3 * length is
                + (\<Sum>i\<leftarrow>is. \<Sum>d\<leftarrow>[0..<dimp]. nat \<bar>f i d\<bar>)"
      "foldl (size_step_i dimp probes) (Some ((sz + ?S) mod 2 ^ 64)) is =
         Some (((sz + ?S) mod 2 ^ 64 + (\<Sum>i\<leftarrow>is. \<Sum>d\<leftarrow>[0..<dimp]. nat \<bar>f i d\<bar>)) mod 2 ^ 64)"
    by blast
  have m: "((sz + ?S) mod 2 ^ 64 + (\<Sum>i\<leftarrow>is. \<Sum>d\<leftarrow>[0..<dimp]. nat \<bar>f i d\<bar>)) mod 2 ^ 64
      = (sz + ?S + (\<Sum>i\<leftarrow>is. \<Sum>d\<leftarrow>[0..<dimp]. nat \<bar>f i d\<bar>)) mod 2 ^ 64"
    by (rule mod_add_left_eq)
  let ?R = "\<Sum>i\<leftarrow>is. \<Sum>d\<leftarrow>[0..<dimp]. nat \<bar>f i d\<bar>"
  have "foldl (size_step_i dimp probes) (Some sz) (i # is) =
        foldl (size_step_i dimp probes) (Some ((sz + ?S) mod 2 ^ 64)) is"
    by (simp add: z1)
  also have "\<dots> = Some (((sz + ?S) mod 2 ^ 64 + ?R) mod 2 ^ 64)" by (rule r(3))
  also have "\<dots> = Some ((sz + ?S + ?R) mod 2 ^ 64)" by (simp only: m)
  also have "sz + ?S + ?R = sz + (\<Sum>i\<leftarrow>i # is. \<Sum>d\<leftarrow>[0..<dimp]. nat \<bar>f i d\<bar>)" by simp
  finally have sz': "foldl (size_step_i dimp probes) (Some sz) (i # is) =
      Some ((sz + (\<Sum>i\<leftarrow>i # is. \<Sum>d\<leftarrow>[0..<dimp]. nat \<bar>f i d\<bar>)) mod 2 ^ 64)" .
  have "foldl (diff_step_i dm dimp probes) (Some stream) (i # is) = Some stream'"
    using r(1) by (simp add: s1(1))
  moreover have "length stream' = length stream + 3 * length (i # is)
      + (\<Sum>i\<leftarrow>i # is. \<Sum>d\<leftarrow>[0..<dimp]. nat \<bar>f i d\<bar>)"
    using r(2) s1(2) by simp
  ultimately show ?case using sz' by blast
qed

lemma probe_diff_delta:
  assumes i: "1 \<le> i" "i < n" and d: "d < dimp"
    and inb: "\<forall>i \<in> set [0..<n]. flipIdx i dimp (dimp * 2) < n"
    and len: "length probes = n * dimp"
  shows "probe_diff dimp probes (flipIdx (i - 1) dimp (dimp * 2)) (flipIdx i dimp (dimp * 2)) d
           = Some (int32 (probe_delta dimp probes i d))"
proof -
  have s: "flipIdx (i - 1) dimp (dimp * 2) < n" using inb i by simp
  have t: "flipIdx i dimp (dimp * 2) < n" using inb i by simp
  show ?thesis
    unfolding probe_delta_def by (rule probe_diff_in_range [OF s t d len])
qed

lemma three_pred_mod:
  assumes "1 \<le> n"
  shows "(3 * ((n + 2 ^ 64 - 1) mod 2 ^ 64)) mod 2 ^ 64 = (3 * (n - 1)) mod (2 ^ 64 :: nat)"
proof -
  have "n + 2 ^ 64 - 1 = (n - 1) + 2 ^ 64" using assms by simp
  then have "(n + 2 ^ 64 - 1) mod 2 ^ 64 = (n - 1) mod (2 ^ 64 :: nat)"
    by (simp only: mod_add_self2)
  then have "(3 * ((n + 2 ^ 64 - 1) mod 2 ^ 64)) mod 2 ^ 64 = (3 * ((n - 1) mod 2 ^ 64)) mod (2 ^ 64 :: nat)"
    by (simp only:)
  also have "\<dots> = (3 * (n - 1)) mod 2 ^ 64" by (rule mod_mult_right_eq)
  finally show ?thesis .
qed

lemma generate_probe_diffs_total:
  assumes dm: "dm + 1 < 2 ^ 32"
    and n1: "1 \<le> nprobes"
    and inb: "\<forall>i \<in> set [0..<nprobes]. flipIdx i (dm + 1) ((dm + 1) * 2) < nprobes"
    and len: "length probes = nprobes * (dm + 1)"
    and fit: "\<forall>i \<in> set [1..<nprobes]. \<forall>d \<in> set [0..<dm + 1]. \<bar>probe_delta (dm + 1) probes i d\<bar> < 2 ^ 31"
    and cap: "\<forall>i \<in> set [1..<nprobes].
        (\<Sum>d\<leftarrow>[0..<dm + 1]. nat (probe_delta (dm + 1) probes i d)) \<le> dm + 1 + MAX_NUM_SHELLS"
  shows "\<exists>stream. generate_probe_diffs dm nprobes probes = Some stream
     \<and> size_probe_stream dm nprobes probes = Some (length stream mod 2 ^ 64)
     \<and> length stream = 3 * (nprobes - 1)
         + (\<Sum>i\<leftarrow>[1..<nprobes]. \<Sum>d\<leftarrow>[0..<dm + 1]. nat \<bar>probe_delta (dm + 1) probes i d\<bar>)"
proof -
  let ?dimp = "dm + 1"
  let ?f = "probe_delta ?dimp probes"
  have dimp: "(dm + 1) mod 2 ^ 32 = ?dimp" using dm by simp
  have pos: "0 < ?dimp" by simp
  have defd: "\<forall>i \<in> set [1..<nprobes]. \<forall>d \<in> set [0..<?dimp].
        probe_diff ?dimp probes (flipIdx (i - 1) ?dimp (?dimp * 2)) (flipIdx i ?dimp (?dimp * 2)) d
          = Some (?f i d) \<and> \<bar>?f i d\<bar> < 2 ^ 31"
  proof (intro ballI)
    fix i d assume i: "i \<in> set [1..<nprobes]" and d: "d \<in> set [0..<?dimp]"
    have b: "\<bar>?f i d\<bar> < 2 ^ 31" using fit i d by blast
    then have "is_int32 (?f i d)" by (auto simp add: is_int32_def abs_less_iff)
    then have "int32 (?f i d) = ?f i d" by (rule int32_id)
    moreover have "probe_diff ?dimp probes (flipIdx (i - 1) ?dimp (?dimp * 2)) (flipIdx i ?dimp (?dimp * 2)) d
          = Some (int32 (?f i d))"
    proof (rule probe_diff_delta [where n = nprobes])
      show "1 \<le> i" "i < nprobes" using i by simp_all
      show "d < ?dimp" using d by auto
      show "\<forall>i \<in> set [0..<nprobes]. flipIdx i ?dimp (?dimp * 2) < nprobes" by (rule inb)
      show "length probes = nprobes * ?dimp" by (rule len)
    qed
    ultimately show "probe_diff ?dimp probes (flipIdx (i - 1) ?dimp (?dimp * 2)) (flipIdx i ?dimp (?dimp * 2)) d
          = Some (?f i d) \<and> \<bar>?f i d\<bar> < 2 ^ 31"
      using b by simp
  qed
  let ?z = "(3 * (nprobes - 1)) mod (2 ^ 64 :: nat)"
  have z: "?z < 2 ^ 64" by simp
  from outer_eq [OF pos defd cap z, of dm "[]"] obtain stream where
    r: "foldl (diff_step_i dm ?dimp probes) (Some []) [1..<nprobes] = Some stream"
      "length stream = length ([] :: Order_t list) + 3 * length [1..<nprobes]
          + (\<Sum>i\<leftarrow>[1..<nprobes]. \<Sum>d\<leftarrow>[0..<?dimp]. nat \<bar>?f i d\<bar>)"
      "foldl (size_step_i ?dimp probes) (Some ?z) [1..<nprobes] =
         Some ((?z + (\<Sum>i\<leftarrow>[1..<nprobes]. \<Sum>d\<leftarrow>[0..<?dimp]. nat \<bar>?f i d\<bar>)) mod 2 ^ 64)"
    by blast
  have l: "length stream = 3 * (nprobes - 1)
      + (\<Sum>i\<leftarrow>[1..<nprobes]. \<Sum>d\<leftarrow>[0..<?dimp]. nat \<bar>?f i d\<bar>)"
    using r(2) by simp
  have "(?z + (\<Sum>i\<leftarrow>[1..<nprobes]. \<Sum>d\<leftarrow>[0..<?dimp]. nat \<bar>?f i d\<bar>)) mod 2 ^ 64
      = length stream mod 2 ^ 64"
    unfolding l by (rule mod_add_left_eq)
  then have "size_probe_stream dm nprobes probes = Some (length stream mod 2 ^ 64)"
    unfolding size_probe_stream_def dimp three_pred_mod [OF n1] r(3) by simp
  moreover have "generate_probe_diffs dm nprobes probes = Some stream"
    unfolding generate_probe_diffs_def dimp by (rule r(1))
  ultimately show ?thesis using l by blast
qed



section \<open>Lemmas on rounding, buffers and the queries\<close>

lemma round_up_floor: "round_up x = \<lfloor>x + 1 / 2\<rfloor>"
proof -
  have "trunc_int y - (if y < of_int (trunc_int y) then 1 else 0) = \<lfloor>y\<rfloor>" for y :: real
  proof (cases "0 \<le> y")
    case True
    then show ?thesis by (simp add: trunc_int_def not_less)
  next
    case False
    show ?thesis
    proof (cases "y \<in> \<int>")
      case True
      then show ?thesis using False by (auto simp add: trunc_int_def elim!: Ints_cases)
    next
      case N: False
      then have "\<lceil>y\<rceil> = \<lfloor>y\<rfloor> + 1" by (simp add: ceiling_altdef) (metis Ints_of_int)
      moreover have "y < of_int \<lceil>y\<rceil>" using N by (metis Ints_of_int le_of_int_ceiling order_less_le)
      ultimately show ?thesis using False by (simp add: trunc_int_def)
    qed
  qed
  then show ?thesis by (simp add: round_up_def Let_def)
qed

lemma to_ls_3: "to_lattice_space 3 1 [3, 0, 0] = [5 / 2, - 1 / 2, - 1 / 2, - 3 / 2]"
  by (simp add: to_lattice_space_eq)

lemma get_buffs_eq:
  "get_buffs n b = (if b < n then Inl Error_insufficient_buffers else Inr (b - n))"
  by (induction n arbitrary: b) (auto simp add: get_buff_def)

section \<open>Lemmas on the sort\<close>















section \<open>Lemmas on the process-wide tables\<close>


lemma StartSortOrd_ord_ok:
  assumes "ord_ok st"
  shows "take (dm + 1) (fst (StartSortOrd_ord dm st)) = [0..<dm + 1]"
    and "ord_ok (snd (StartSortOrd_ord dm st))"
proof -
  have grow: "m_ord st @ [m_ord_dim st + 1..<dm + 1] = [0..<dm + 1]" if "m_ord_dim st < dm"
  proof -
    have "[0..<dm + 1] = [0..<m_ord_dim st + 1] @ [m_ord_dim st + 1..<dm + 1]"
      using that upt_add_eq_append [of 0 "m_ord_dim st + 1" "dm - m_ord_dim st"] by simp
    then show ?thesis using assms by (simp add: ord_ok_def)
  qed
  show "take (dm + 1) (fst (StartSortOrd_ord dm st)) = [0..<dm + 1]"
  proof (cases "dm \<le> m_ord_dim st")
    case True
    then have "take (dm + 1) [0..<m_ord_dim st + 1] = [0..<dm + 1]"
      using take_upt [of 0 "dm + 1" "m_ord_dim st + 1"] by (simp del: upt_Suc)
    then show ?thesis using True assms by (simp add: StartSortOrd_ord_def ord_ok_def del: upt_Suc)
  next
    case False
    then have "fst (StartSortOrd_ord dm st) = [0..<dm + 1]"
      using grow by (simp add: StartSortOrd_ord_def Let_def del: upt_Suc)
    then show ?thesis by (simp del: upt_Suc)
  qed
  show "ord_ok (snd (StartSortOrd_ord dm st))"
    using assms grow by (simp add: StartSortOrd_ord_def Let_def ord_ok_def del: upt_Suc)
qed

lemma EndFill_fill_ok:
  assumes "fill_ok st"
  shows "take (dm + 1) (fst (EndFill_fill dm st)) = replicate (dm + 1) None"
    and "fill_ok (snd (EndFill_fill dm st))"
proof -
  have grow: "m_fill st @ replicate (dm - m_fill_dim st) None = replicate (dm + 1) None"
    if "m_fill_dim st < dm"
  proof -
    have "replicate (m_fill_dim st + 1) None @ replicate (dm - m_fill_dim st) (None :: nat option)
          = replicate (m_fill_dim st + 1 + (dm - m_fill_dim st)) None"
      by (simp only: replicate_add)
    also have "m_fill_dim st + 1 + (dm - m_fill_dim st) = dm + 1" using that by simp
    finally show ?thesis using assms by (simp add: fill_ok_def)
  qed
  show "take (dm + 1) (fst (EndFill_fill dm st)) = replicate (dm + 1) None"
  proof (cases "dm \<le> m_fill_dim st")
    case True
    then show ?thesis using assms by (simp add: EndFill_fill_def fill_ok_def min_def)
  next
    case False
    then show ?thesis using grow by (simp add: EndFill_fill_def Let_def)
  qed
  show "fill_ok (snd (EndFill_fill dm st))"
    using assms grow by (simp add: EndFill_fill_def Let_def fill_ok_def)
qed

section \<open>Lemmas on setK0\<close>

lemma setK0_first_fold:
  "foldl (setK0_first dm v) (c, xmod, h) is =
     (c @ map (\<lambda>i. round_up (v ! i / real (dm + 1))) is,
      xmod @ map (\<lambda>i. v ! i - of_int (round_up (v ! i / real (dm + 1))) * real (dm + 1)) is,
      h + (\<Sum>i\<leftarrow>is. round_up (v ! i / real (dm + 1))))"
  by (induction "is" arbitrary: c xmod h) (simp_all add: setK0_first_def Let_def)







lemma setK0_adjust_fold_None:
  "foldl (setK0_adjust delta dimpd) None idxs = None"
  by (induction idxs) (simp_all add: setK0_adjust_def)

section \<open>Lemmas on setK0 (continued)\<close>

lemma setK0_first_fold0:
  "foldl (setK0_first dm v) ([], [], 0) [0..<dm + 1] =
     (map (\<lambda>i. round_up (v ! i / real (dm + 1))) [0..<dm + 1],
      map (\<lambda>i. v ! i - of_int (round_up (v ! i / real (dm + 1))) * real (dm + 1)) [0..<dm + 1],
      \<Sum>i\<leftarrow>[0..<dm + 1]. round_up (v ! i / real (dm + 1)))"
  unfolding setK0_first_fold by simp

lemma setK0_unfold:
  "setK0 dm v buff st =
     (let c = map (\<lambda>i. round_up (v ! i / real (dm + 1))) [0..<dm + 1];
          xmod = map (\<lambda>i. v ! i - of_int (round_up (v ! i / real (dm + 1))) * real (dm + 1)) [0..<dm + 1];
          h = (\<Sum>i\<leftarrow>[0..<dm + 1]. round_up (v ! i / real (dm + 1)));
          start = take (dm + 1) (fst (StartSortOrd_ord dm st));
          st' = snd (StartSortOrd_ord dm st)
      in if h = 0
         then (case sort_order xmod start 0 (dm + 1) of
                 None \<Rightarrow> None
               | Some order \<Rightarrow> Some (Inr (xmod, c, order)), st')
         else if buff = 0 then (Some (Inl Error_insufficient_buffers), st)
         else (case sort_order xmod start 0 (dm + 1) of
                 None \<Rightarrow> None
               | Some sortord \<Rightarrow>
                   if h > 0
                   then (if h > int (dm + 1) then None
                         else case foldl (setK0_adjust (- 1) (real (dm + 1))) (Some (c, xmod))
                                     (take (nat h) sortord) of
                                None \<Rightarrow> None
                              | Some (c', xmod') \<Rightarrow>
                                  Some (Inr (xmod', c', drop (nat h) sortord @ take (nat h) sortord)))
                   else (if - h > int (dm + 1) then None
                         else case foldl (setK0_adjust 1 (real (dm + 1))) (Some (c, xmod))
                                     (drop (nat (int (dm + 1) + h)) sortord) of
                                None \<Rightarrow> None
                              | Some (c', xmod') \<Rightarrow>
                                  Some (Inr (xmod', c',
                                     drop (nat (int (dm + 1) + h)) sortord
                                       @ take (nat (int (dm + 1) + h)) sortord))),
               st'))"
  unfolding setK0_def Let_def setK0_first_fold0 prod.case get_buff_def
  by (simp add: split_def del: upt_Suc cong: option.case_cong if_cong)



lemma setK0_indep:
  assumes "ord_ok st1" and "ord_ok st2"
  shows "fst (setK0 dm v buff st1) = fst (setK0 dm v buff st2)"
proof -
  have "take (dm + 1) (fst (StartSortOrd_ord dm st1)) = take (dm + 1) (fst (StartSortOrd_ord dm st2))"
    using assms by (simp only: StartSortOrd_ord_ok(1))
  then show ?thesis
    unfolding setK0_unfold Let_def by (simp split: option.splits)
qed

lemma setK0_state_ok:
  assumes "ord_ok st"
  shows "ord_ok (snd (setK0 dm v buff st))"
  using assms StartSortOrd_ord_ok(2) [OF assms, of dm]
  unfolding setK0_unfold Let_def by (simp split: option.splits)



section \<open>Lemmas on walking the diff stream\<close>




section \<open>Lemmas on the shape of the generated stream\<close>



lemma cols_ok_Nil: "cols_ok dimp []"
  by (simp add: cols_ok_def)







section \<open>Lemmas on the probe count and the extended query\<close>










section \<open>Claims on the lattice kernel\<close>




text \<open>
  C4 (as amended). For every \<open>n \<ge> 1\<close> and every \<open>(n+1)\<close>-vector \<open>c\<close> of \<^verbatim>\<open>int32_t\<close>
  values for which \<open>- \<Sum>c\<close> and every \<open>- ((n+1) c\<^sub>i - \<Sum>c)\<close> fit in 32 bits,
  \<^verbatim>\<open>cvector_to_point\<close> produces the \<open>n + 1\<close> coordinates \<open>p\<^sub>i = - ((n+1) c\<^sub>i - \<Sum>c)\<close>: every
  coordinate is an integer and the coordinates sum to exactly \<open>0\<close>. Outside that range
  the 32-bit arithmetic wraps: for \<open>n = 1\<close> and \<open>c = (-2\<^sup>3\<^sup>1, 0)\<close> the point is
  \<open>(-2\<^sup>3\<^sup>1, -2\<^sup>3\<^sup>1)\<close>, whose coordinates sum to \<open>-2\<^sup>3\<^sup>2\<close>.
\<close>

theorem cvector_to_point_integer_zero_sum:
  assumes "1 \<le> dm" and "dm + 1 < 2 ^ 31" and "length c = dm + 1" and "\<forall>x \<in> set c. is_int32 x"
    and "is_int32 (- sum_list c)"
    and "\<forall>x \<in> set c. is_int32 (- (int (dm + 1) * x - sum_list c))"
  shows "cvector_to_lattice_point_in_lattice_space dm c =
           map (\<lambda>x. real_of_int (- (int (dm + 1) * x - sum_list c))) c
     \<and> length (cvector_to_lattice_point_in_lattice_space dm c) = dm + 1
     \<and> (\<forall>x \<in> set (cvector_to_lattice_point_in_lattice_space dm c). x \<in> \<int>)
     \<and> sum_list (cvector_to_lattice_point_in_lattice_space dm c) = 0"
proof -
  have k: "cvector_to_k dm c = - sum_list c"
    using cvector_to_k_eq [OF assms(2,3)] assms(5) by (simp add: int32_id)
  have p: "cvector_to_lattice_point_in_lattice_space dm c =
           map (\<lambda>x. real_of_int (- (int (dm + 1) * x - sum_list c))) c"
    unfolding cvector_to_point_eq [OF assms(2,3)] k using assms(6)
    by (simp add: int32_id mult.commute)
  have "sum_list (map (\<lambda>x. real_of_int (- (int (dm + 1) * x - sum_list c))) c) =
        real_of_int (- (int (dm + 1) * sum_list c + int (length c) * (- sum_list c)))"
    using sum_list_cvector_point [of "int (dm + 1)" "- sum_list c" c] by (simp add: mult.commute)
  also have "\<dots> = 0"
    using assms(3) by (simp add: algebra_simps)
  finally have z: "sum_list (cvector_to_lattice_point_in_lattice_space dm c) = 0"
    by (simp only: p)
  show ?thesis
    using z assms(3) by (auto simp add: p)
qed

theorem cvector_to_point_integer_zero_sum_witness:
  "(1::nat) \<le> 1 \<and> (1 + 1 :: nat) < 2 ^ 31 \<and> length [1, 0 :: int] = 1 + 1 \<and>
   list_all is_int32 [1, 0] \<and> is_int32 (- sum_list [1, 0]) \<and>
   list_all (\<lambda>x. is_int32 (- (int (1 + 1) * x - sum_list [1, 0]))) [1, 0] \<and>
   cvector_to_lattice_point_in_lattice_space 1 [1, 0] = [- 1, 1] \<and>
   length (cvector_to_lattice_point_in_lattice_space 1 [1, 0]) = 1 + 1 \<and>
   list_all (\<lambda>x. x \<in> \<int>) (cvector_to_lattice_point_in_lattice_space 1 [1, 0]) \<and>
   sum_list (cvector_to_lattice_point_in_lattice_space 1 [1, 0]) = 0"
  using cvector_to_point_integer_zero_sum [of 1 "[1, 0]"] by (simp add: is_int32_def list_all_iff)

theorem cvector_to_point_int32_wrap_counterexample:
  "list_all is_int32 [- (2 ^ 31), 0] \<and>
   cvector_to_lattice_point_in_lattice_space 1 [- (2 ^ 31), 0] = [- (2 ^ 31), - (2 ^ 31)] \<and>
   sum_list (cvector_to_lattice_point_in_lattice_space 1 [- (2 ^ 31), 0]) = - (2 ^ 32) \<and>
   sum_list (cvector_to_lattice_point_in_lattice_space 1 [- (2 ^ 31), 0]) \<noteq> 0"
  by (simp add: cvector_to_k_eq cvector_to_point_eq int32_def is_int32_def)



section \<open>Claim on the hash kernel\<close>

text \<open>
  C8. For every c-vector \<open>c\<close>, every permutation \<open>order\<close> of \<open>{0..n}\<close> and every column
  \<open>l \<le> n\<close>, incrementing \<open>c[order[l]]\<close> by one changes \<open>hash(n, c)\<close> by exactly
  \<open>ordered_powers[l]\<close>, which is \<open>RADIX ^ order[l]\<close>, in arithmetic modulo \<open>2^64\<close>
  (for every state of the cache of powers that the library can be in).
\<close>

theorem hash_increment_ordered_power:
  "cache_ok st \<Longrightarrow> length c = dm + 1 \<Longrightarrow> length order = dm + 1 \<Longrightarrow> set order = {..dm} \<Longrightarrow>
   l \<le> dm \<Longrightarrow>
     hash dm (c[order ! l := c ! (order ! l) + 1]) - hash dm c = fst (makeOrdered dm order st) ! l \<and>
     fst (makeOrdered dm order st) ! l = RADIX ^ (order ! l)"
proof -
  assume ok: "cache_ok st" and lc: "length c = dm + 1" and lo: "length order = dm + 1"
    and perm: "set order = {..dm}" and l: "l \<le> dm"
  have "order ! l \<in> set order" using lo l by simp
  then have j: "order ! l \<le> dm" using perm by simp
  show ?thesis
    using hash_increment [OF j lc] makeOrdered_nth [OF ok l j] by simp
qed

theorem hash_increment_ordered_power_witness:
  "cache_ok POW_RADIX \<and> length [5, - 3, 7 :: int] = 2 + 1 \<and> length [2, 0, 1 :: nat] = 2 + 1 \<and>
   set [2, 0, 1 :: nat] = {..2} \<and> (0 :: nat) \<le> 2 \<and>
   hash 2 ([5, - 3, 7][[2, 0, 1] ! 0 := [5, - 3, 7] ! ([2, 0, 1] ! 0) + 1]) - hash 2 [5, - 3, 7] = 961 \<and>
   fst (makeOrdered 2 [2, 0, 1] POW_RADIX) ! 0 = 961"
proof -
  have ok: "cache_ok POW_RADIX" by (simp add: POW_RADIX_def cache_ok_init)
  have s: "set [2, 0, 1 :: nat] = {..2}" by auto
  show ?thesis
    using hash_increment_ordered_power [OF ok _ _ s, of "[5, - 3, 7]" 0] ok s
    by (simp add: RADIX_def)
qed

section \<open>Claim on the probe diff stream\<close>

text \<open>
  C6 (as amended). For every \<open>dim \<ge> 1\<close> and every array of \<open>P \<ge> 1\<close> probes on which
  the two passes are defined, \<^verbatim>\<open>generate_probe_diffs\<close> writes exactly
  \<^verbatim>\<open>size_probe_stream(dim, P, probes)\<close> stream elements, and that number is \<open>3 (P - 1)\<close>
  plus the sum, over the consecutive pairs of probes in flipped order, of the absolute
  differences of their coordinates (the \<^verbatim>\<open>size_t\<close> count being that number modulo
  \<open>2\<^sup>6\<^sup>4\<close>). The passes are defined when the flipped order stays inside the \<open>P\<close>
  probes (as it does for whole orbits of \<open>dim + 1\<close> probes), the coordinate differences
  fit in 32 bits, and for every pair the increases of the coordinates add up to at most
  \<open>dim + 1 + MAX_NUM_SHELLS\<close>, the capacity of \<open>temp_cols\<close>. Outside these conditions
  the code reads past the probe array or writes past \<open>temp_cols\<close>.
\<close>

theorem generate_probe_diffs_length:
  assumes "1 \<le> dm" and "dm + 1 < 2 ^ 32" and "1 \<le> nprobes"
    and "length probes = nprobes * (dm + 1)"
    and "\<forall>i \<in> set [0..<nprobes]. flipIdx i (dm + 1) ((dm + 1) * 2) < nprobes"
    and "\<forall>i \<in> set [1..<nprobes]. \<forall>d \<in> set [0..<dm + 1]. \<bar>probe_delta (dm + 1) probes i d\<bar> < 2 ^ 31"
    and "\<forall>i \<in> set [1..<nprobes].
        (\<Sum>d\<leftarrow>[0..<dm + 1]. nat (probe_delta (dm + 1) probes i d)) \<le> dm + 1 + MAX_NUM_SHELLS"
  shows "\<exists>stream. generate_probe_diffs dm nprobes probes = Some stream
     \<and> size_probe_stream dm nprobes probes = Some (length stream mod 2 ^ 64)
     \<and> length stream = 3 * (nprobes - 1)
         + (\<Sum>i\<leftarrow>[1..<nprobes]. \<Sum>d\<leftarrow>[0..<dm + 1]. nat \<bar>probe_delta (dm + 1) probes i d\<bar>)"
  by (rule generate_probe_diffs_total [OF assms(2) assms(3) assms(5) assms(4) assms(6) assms(7)])

theorem generate_probe_diffs_length_witness:
  "(1::nat) \<le> 1 \<and> (1 + 1 :: nat) < 2 ^ 32 \<and> (1::nat) \<le> 4 \<and>
   length [0, 0, - 1, 0, 1, - 1, 0, 0 :: int] = 4 * (1 + 1) \<and>
   list_all (\<lambda>i. flipIdx i (1 + 1) ((1 + 1) * 2) < 4) [0..<4] \<and>
   list_all (\<lambda>i. list_all (\<lambda>d. \<bar>probe_delta (1 + 1) [0, 0, - 1, 0, 1, - 1, 0, 0] i d\<bar> < 2 ^ 31) [0..<1 + 1])
     [1..<4] \<and>
   list_all (\<lambda>i. (\<Sum>d\<leftarrow>[0..<1 + 1]. nat (probe_delta (1 + 1) [0, 0, - 1, 0, 1, - 1, 0, 0] i d))
                \<le> 1 + 1 + MAX_NUM_SHELLS) [1..<4] \<and>
   (\<exists>stream. generate_probe_diffs 1 4 [0, 0, - 1, 0, 1, - 1, 0, 0] = Some stream \<and>
      size_probe_stream 1 4 [0, 0, - 1, 0, 1, - 1, 0, 0] = Some 13 \<and> length stream = 13)"
  using generate_probe_diffs_length [of 1 4 "[0, 0, - 1, 0, 1, - 1, 0, 0]"]
  by (auto simp add: probe_delta_def flipIdx_def Let_def MAX_NUM_SHELLS_def list_all_iff
      upt_rec [of _ "numeral _"])

theorem generate_probe_diffs_undefined_counterexample:
  "size_probe_stream 1 2 [0, 0, 33, 0] = Some 36 \<and>
   generate_probe_diffs 1 2 [0, 0, 33, 0] = None \<and>
   size_probe_stream 1 3 [0, 0, 0, 0, 0, 0] = None \<and>
   generate_probe_diffs 1 3 [0, 0, 0, 0, 0, 0] = None"
  by (simp add: size_probe_stream_def size_step_i_def size_step_d_def
      generate_probe_diffs_def diff_step_i_def diff_step_d_def probe_diff_def flipIdx_def
      int32_def MAX_NUM_SHELLS_def Let_def upt_rec [of _ "numeral _"])


section \<open>The Delaunay query\<close>

text \<open>
  C7 says that the Delaunay query calls \<open>match\<close> exactly \<open>n + 1\<close> times for every engine
  and every input vector (as the comment on \<^verbatim>\<open>delaunay_probes\<close> in AStarNN.h does). The
  query takes \<open>5\<close> work buffers. With a \<open>QueryCallback_Point\<close> the query itself uses all
  five (\<open>lattice_point\<close>, \<open>mapped\<close>, \<open>c\<close>, \<open>xmod\<close>, \<open>order\<close>), and \<^verbatim>\<open>setK0\<close> asks for
  one more whenever the rounded coordinates do not sum to \<open>0\<close>. At \<open>dim = 3\<close>,
  \<open>scale = 1\<close> and the vector \<open>(3, 0, 0)\<close> the query throws
  \<open>Error_insufficient_buffers\<close> after \<open>init\<close> and before any \<open>match\<close>.
\<close>

theorem delaunay_point_callback_insufficient_buffers:
  "delaunay_probes QueryCallback_Point 3 1 [3, 0, 0] g =
     Some ([Init 3 [5 / 2, - 1 / 2, - 1 / 2, - 3 / 2]], Some Error_insufficient_buffers, g)"
  by (simp add: delaunay_probes_def BuffStack_def point_buffs_def get_buff_def get_buffs_eq to_ls_3
      setK0_def setK0_first_def round_up_floor Let_def upt_conv_Cons)


section \<open>The probe count\<close>



end
